theory Spec2Isabelle
  imports Main "HOL-Library.Word" "HOL-Library.Multiset"
begin

unbundle bit_operations_syntax

section \<open>Data model of go/worker/storage/committee/node.go\<close>

text \<open>
  Rounds are Go \<open>uint64\<close> values: addition and subtraction wrap around.
  \<open>outstandingMask\<close> is a Go \<open>uint\<close>, taken at its 64-bit width.
  Namespaces, runtime identifiers, hashes and write-log entries come from packages that
  are not part of the worker; they are kept abstract. The only hash the worker builds
  itself is the empty hash (\<open>Hash.Empty()\<close>).
\<close>

type_synonym round = "64 word"
type_synonym outstandingMask = "64 word"
type_synonym namespace = nat
type_synonym runtimeID = nat

datatype hash = EmptyHash | Digest nat

type_synonym logEntry = "nat \<times> nat"
type_synonym writeLog = "logEntry list"

datatype error = ErrAlreadyFinalized | ErrOther nat

definition RoundLatest :: round where
  "RoundLatest = - 1"

definition defaultUndefinedRound :: round where
  "defaultUndefinedRound = NOT 0"

definition maskNone :: outstandingMask where
  "maskNone = 0"

definition maskIO :: outstandingMask where
  "maskIO = 1"

definition maskState :: outstandingMask where
  "maskState = 2"

definition maskAll :: outstandingMask where
  "maskAll = maskIO OR maskState"

record root =
  root_Namespace :: namespace
  root_Round :: round
  root_Hash :: hash

record header =
  hdr_Namespace :: namespace
  hdr_Round :: round
  hdr_IORoot :: hash
  hdr_StateRoot :: hash

record block =
  Header :: header

record prunedBlock =
  pb_RuntimeID :: runtimeID
  pb_Round :: round

record fetchedDiff =
  d_fetchMask :: outstandingMask
  d_fetched :: bool
  d_err :: "error option"
  d_round :: round
  d_prevRoot :: root
  d_thisRoot :: root
  d_writeLog :: writeLog

record blockSummary =
  Namespace :: namespace
  Round :: round
  IORoot :: root
  StateRoot :: root

definition summaryFromBlock :: "block \<Rightarrow> blockSummary" where
  "summaryFromBlock blk =
     \<lparr> Namespace = hdr_Namespace (Header blk),
       Round = hdr_Round (Header blk),
       IORoot = \<lparr> root_Namespace = hdr_Namespace (Header blk),
                  root_Round = hdr_Round (Header blk),
                  root_Hash = hdr_IORoot (Header blk) \<rparr>,
       StateRoot = \<lparr> root_Namespace = hdr_Namespace (Header blk),
                     root_Round = hdr_Round (Header blk),
                     root_Hash = hdr_StateRoot (Header blk) \<rparr> \<rparr>"

record watcherState =
  LastBlock :: blockSummary

record inFlight =
  outstanding :: outstandingMask
  awaitingRetry :: outstandingMask

subsection \<open>The round-keyed priority queue\<close>

text \<open>
  \<open>outOfOrderRoundQueue\<close> is a slice of \<open>roundItem\<close>s ordered by \<open>GetRound()\<close>; the
  key function \<open>k\<close> stands for \<open>GetRound\<close>. \<open>q_Less\<close>, \<open>q_Swap\<close>, \<open>q_Push\<close> and \<open>q_Pop\<close>
  are the methods of the source; \<open>heap_up\<close>, \<open>heap_down\<close>, \<open>heap_Push\<close> and \<open>heap_Pop\<close>
  are \<open>up\<close>, \<open>down\<close>, \<open>Push\<close> and \<open>Pop\<close> of Go's \<open>container/heap\<close>, which call them.
  Popping an empty queue indexes out of range in Go; here it is \<open>None\<close>.
\<close>

definition q_Less :: "('a \<Rightarrow> round) \<Rightarrow> 'a list \<Rightarrow> nat \<Rightarrow> nat \<Rightarrow> bool" where
  "q_Less k q i j = (k (q ! i) < k (q ! j))"

definition q_Swap :: "'a list \<Rightarrow> nat \<Rightarrow> nat \<Rightarrow> 'a list" where
  "q_Swap q i j = q[i := q ! j, j := q ! i]"

definition q_Push :: "'a list \<Rightarrow> 'a \<Rightarrow> 'a list" where
  "q_Push q x = q @ [x]"

definition q_Pop :: "'a list \<Rightarrow> ('a \<times> 'a list) option" where
  "q_Pop old = (if old = [] then None else Some (old ! (length old - 1), take (length old - 1) old))"

function heap_up :: "('a \<Rightarrow> round) \<Rightarrow> 'a list \<Rightarrow> nat \<Rightarrow> 'a list" where
  "heap_up k q j =
     (let i = (j - 1) div 2 in
      if i = j \<or> \<not> q_Less k q j i then q
      else heap_up k (q_Swap q i j) i)"
  by pat_completeness auto
termination
  by (relation "measure (\<lambda>(k, q, j). j)") auto

declare heap_up.simps [simp del]

function heap_down :: "('a \<Rightarrow> round) \<Rightarrow> 'a list \<Rightarrow> nat \<Rightarrow> nat \<Rightarrow> 'a list" where
  "heap_down k q i n =
     (let j1 = 2 * i + 1 in
      if j1 \<ge> n then q
      else
        let j = (if j1 + 1 < n \<and> q_Less k q (j1 + 1) j1 then j1 + 1 else j1) in
        if \<not> q_Less k q j i then q
        else heap_down k (q_Swap q i j) j n)"
  by pat_completeness auto
termination
  by (relation "measure (\<lambda>(k, q, i, n). n - i)") auto

declare heap_down.simps [simp del]

definition heap_Push :: "('a \<Rightarrow> round) \<Rightarrow> 'a list \<Rightarrow> 'a \<Rightarrow> 'a list" where
  "heap_Push k q x = (let q1 = q_Push q x in heap_up k q1 (length q1 - 1))"

definition heap_Pop :: "('a \<Rightarrow> round) \<Rightarrow> 'a list \<Rightarrow> ('a \<times> 'a list) option" where
  "heap_Pop k q =
     (if q = [] then None
      else
        let n = length q - 1;
            q1 = q_Swap q 0 n;
            q2 = heap_down k q1 0 n
        in q_Pop q2)"

subsection \<open>The diff fetcher\<close>

text \<open>
  The remote client's \<open>GetDiff\<close> returns an error or an iterator. An iterator is the
  finite list of what its successive \<open>Next()\<close>/\<open>Value()\<close> rounds give: a chunk, an
  error from \<open>Next\<close>, or an error from \<open>Value\<close>; at the end of the list \<open>Next\<close> reports
  that nothing is left.
\<close>

datatype itStep = ItChunk logEntry | ItNextErr error | ItValueErr error

type_synonym iterator = "itStep list"

record fetchEnv =
  HasRoot :: "root \<Rightarrow> bool"
  GetDiff :: "root \<Rightarrow> root \<Rightarrow> error + iterator"

fun consume :: "iterator \<Rightarrow> fetchedDiff \<Rightarrow> fetchedDiff" where
  "consume [] result = result"
| "consume (ItNextErr e # it) result = result\<lparr>d_err := Some e\<rparr>"
| "consume (ItValueErr e # it) result = result\<lparr>d_err := Some e\<rparr>"
| "consume (ItChunk chunk # it) result =
     consume it (result\<lparr>d_writeLog := d_writeLog result @ [chunk]\<rparr>)"

record fetchOut =
  sent :: "fetchedDiff list"
  getDiffCalls :: "(root \<times> root) list"

text \<open>
  \<open>fetchDiff_body\<close> is the function body: the value of \<open>result\<close> when it exits and the
  \<open>GetDiff\<close> calls made. The deferred function sends that value on \<open>diffCh\<close>.
\<close>

definition fetchDiff_body ::
  "fetchEnv \<Rightarrow> round \<Rightarrow> root \<Rightarrow> root \<Rightarrow> outstandingMask \<Rightarrow> fetchedDiff \<times> (root \<times> root) list" where
  "fetchDiff_body fe rnd prevRoot thisRoot fetchMask =
     (let result = \<lparr> d_fetchMask = fetchMask, d_fetched = False, d_err = None, d_round = rnd,
                      d_prevRoot = prevRoot, d_thisRoot = thisRoot, d_writeLog = [] \<rparr>
      in
      if \<not> HasRoot fe thisRoot then
        let result = result\<lparr>d_fetched := True\<rparr> in
        if root_Hash thisRoot = root_Hash prevRoot then (result\<lparr>d_writeLog := []\<rparr>, [])
        else
          (case GetDiff fe prevRoot thisRoot of
             Inl e \<Rightarrow> (result\<lparr>d_err := Some e\<rparr>, [(prevRoot, thisRoot)])
           | Inr it \<Rightarrow> (consume it result, [(prevRoot, thisRoot)]))
      else (result, []))"

definition fetchDiff ::
  "fetchEnv \<Rightarrow> round \<Rightarrow> root \<Rightarrow> root \<Rightarrow> outstandingMask \<Rightarrow> fetchOut" where
  "fetchDiff fe rnd prevRoot thisRoot fetchMask =
     (let (result, calls) = fetchDiff_body fe rnd prevRoot thisRoot fetchMask
      in \<lparr> sent = [result], getDiffCalls = calls \<rparr>)"

text \<open>What a stream delivers before it ends or fails, and how it fails.\<close>

fun streamed :: "iterator \<Rightarrow> writeLog" where
  "streamed [] = []"
| "streamed (ItChunk chunk # it) = chunk # streamed it"
| "streamed (ItNextErr e # it) = []"
| "streamed (ItValueErr e # it) = []"

fun streamErr :: "iterator \<Rightarrow> error option" where
  "streamErr [] = None"
| "streamErr (ItChunk chunk # it) = streamErr it"
| "streamErr (ItNextErr e # it) = Some e"
| "streamErr (ItValueErr e # it) = Some e"

subsection \<open>Collaborators, observable actions and the worker's state\<close>

text \<open>
  A fetch task is one closure handed to \<open>fetchPool.Submit\<close>: the arguments
  \<open>fetchDiff\<close> will be called with. The state-root closure dereferences
  \<open>prev = hashCache[i-1]\<close> only when it runs; \<open>t_prevRoot = None\<close> is a nil \<open>prev\<close>.
\<close>

record fetchTask =
  t_round :: round
  t_prevRoot :: "root option"
  t_thisRoot :: root
  t_fetchMask :: outstandingMask

datatype logMsg =
    CantApplyWriteLog
  | FailedToPruneBlock
  | CantGetBlockForRound
  | ErrorCallingGetDiff
  | CantStoreWatcherState
  | StorageRoundFinalized
  | StorageRoundAlreadyFinalized
  | FailedToFinalizeStorageRound

text \<open>
  The trace lists, in order, what the follower loop does to the outside: the diff it
  pops, its calls of the local store and of roothash, the tasks it submits, the finalize
  goroutines it starts, its checkpoint writes and its error logs.
\<close>

datatype action =
    PopDiff fetchedDiff
  | CallApply namespace round hash round hash writeLog
  | CallPrune namespace round
  | CallGetBlock round
  | SubmitFetch fetchTask
  | SpawnFinalize blockSummary
  | StoreState watcherState
  | LogError logMsg

text \<open>
  The collaborators of the worker. Roothash answers are fixed per round (committed
  blocks do not change); the results of the local store's \<open>Apply\<close> and \<open>Prune\<close> may depend
  on everything done so far, so they take the trace.
\<close>

record env =
  RuntimeID :: runtimeID
  GetGenesisBlock :: "runtimeID \<Rightarrow> error + block"
  GetBlock :: "runtimeID \<Rightarrow> round \<Rightarrow> error + block"
  GetLatestBlock :: "runtimeID \<Rightarrow> error + block"
  WatchPrunedBlocks :: "error option"
  LocalApply :: "action list \<Rightarrow> namespace \<Rightarrow> round \<Rightarrow> hash \<Rightarrow> round \<Rightarrow> hash \<Rightarrow> writeLog \<Rightarrow> error option"
  LocalPrune :: "action list \<Rightarrow> namespace \<Rightarrow> round \<Rightarrow> error option"
  LocalFinalize :: "namespace \<Rightarrow> round \<Rightarrow> hash list \<Rightarrow> error option"
  StoreUpdate :: "watcherState \<Rightarrow> error option"

text \<open>
  The local variables of \<open>worker()\<close> and the fields of \<open>Node\<close> it writes. \<open>fetching\<close>
  holds the tasks submitted to the pool whose result has not been received from
  \<open>diffCh\<close>; \<open>finalizing\<close> holds the summaries of the finalize goroutines started whose
  completion has not been received from \<open>finalizeCh\<close>.
\<close>

record wstate =
  undefinedRound :: round
  syncedState :: watcherState
  cachedLastRound :: round
  lastFullyAppliedRound :: round
  outOfOrderDiffs :: "fetchedDiff list"
  outOfOrderApplieds :: "blockSummary list"
  syncingRounds :: "round \<rightharpoonup> inFlight"
  hashCache :: "round \<rightharpoonup> blockSummary"
  fetching :: "fetchTask list"
  finalizing :: "blockSummary list"
  trace :: "action list"

text \<open>
  How one step of the worker ends: it goes on with a new state, it leaves the main loop
  (cancellation), it panics, it never comes back to the main loop, or the event offered
  to \<open>select\<close> cannot occur in this state (no such task is in flight).
\<close>

datatype 'a outcome = Next 'a | Stopped 'a | Panic | NoReturn | NotEnabled

subsection \<open>ForceFinalize and finalize\<close>

record finalizeCall =
  fc_Namespace :: namespace
  fc_Round :: round
  fc_Roots :: "hash list"

definition ForceFinalize :: "env \<Rightarrow> runtimeID \<Rightarrow> round \<Rightarrow> error option \<times> finalizeCall list" where
  "ForceFinalize env rid rnd =
     (case (if rnd = RoundLatest then GetLatestBlock env rid else GetBlock env rid rnd) of
        Inl err \<Rightarrow> (Some err, [])
      | Inr blk \<Rightarrow>
          (LocalFinalize env (hdr_Namespace (Header blk)) rnd
             [hdr_IORoot (Header blk), hdr_StateRoot (Header blk)],
           [\<lparr> fc_Namespace = hdr_Namespace (Header blk), fc_Round = rnd,
              fc_Roots = [hdr_IORoot (Header blk), hdr_StateRoot (Header blk)] \<rparr>]))"

record finalizeOut =
  fin_calls :: "finalizeCall list"
  fin_log :: logMsg
  fin_sent :: "blockSummary list"

definition finalize :: "env \<Rightarrow> blockSummary \<Rightarrow> finalizeOut" where
  "finalize env summary =
     (let roots = [root_Hash (IORoot summary), root_Hash (StateRoot summary)];
          err = LocalFinalize env (Namespace summary) (Round summary) roots
      in \<lparr> fin_calls = [\<lparr> fc_Namespace = Namespace summary, fc_Round = Round summary,
                          fc_Roots = roots \<rparr>],
           fin_log = (case err of
                        None \<Rightarrow> StorageRoundFinalized
                      | Some ErrAlreadyFinalized \<Rightarrow> StorageRoundAlreadyFinalized
                      | Some (ErrOther x) \<Rightarrow> FailedToFinalizeStorageRound),
           fin_sent = [summary] \<rparr>)"

subsection \<open>Start of the worker\<close>

text \<open>
  \<open>NewNode\<close> presets the last synced round to \<open>defaultUndefinedRound\<close> and then loads
  the stored watcher state, if there is one. \<open>Digest 0\<close> stands for Go's zero hash.
\<close>

definition NewNode_syncedState :: "watcherState option \<Rightarrow> watcherState" where
  "NewNode_syncedState stored =
     (case stored of
        None \<Rightarrow>
          \<lparr> LastBlock =
              \<lparr> Namespace = 0, Round = defaultUndefinedRound,
                IORoot = \<lparr> root_Namespace = 0, root_Round = 0, root_Hash = Digest 0 \<rparr>,
                StateRoot = \<lparr> root_Namespace = 0, root_Round = 0, root_Hash = Digest 0 \<rparr> \<rparr> \<rparr>
      | Some st \<Rightarrow> st)"

text \<open>
  \<open>worker()\<close> up to \<open>close(n.initCh)\<close>; \<open>None\<close> when it returns before the main loop
  (the genesis block or the prune subscription cannot be had).
\<close>

definition worker_init :: "env \<Rightarrow> watcherState \<Rightarrow> wstate option" where
  "worker_init env synced =
     (case GetGenesisBlock env (RuntimeID env) of
        Inl err \<Rightarrow> None
      | Inr genesisBlock \<Rightarrow>
          (case WatchPrunedBlocks env of
             Some err \<Rightarrow> None
           | None \<Rightarrow>
               let undefRound = hdr_Round (Header genesisBlock) - 1;
                   cached = Round (LastBlock synced);
                   cached = (if cached = defaultUndefinedRound \<or> cached < hdr_Round (Header genesisBlock)
                             then undefRound else cached)
               in Some \<lparr> undefinedRound = undefRound,
                         syncedState = synced,
                         cachedLastRound = cached,
                         lastFullyAppliedRound = cached,
                         outOfOrderDiffs = [],
                         outOfOrderApplieds = [],
                         syncingRounds = Map.empty,
                         hashCache = Map.empty,
                         fetching = [],
                         finalizing = [],
                         trace = [] \<rparr>))"

subsection \<open>The main loop: draining the apply queue\<close>

definition applyGuard :: "wstate \<Rightarrow> bool" where
  "applyGuard s =
     (length (outOfOrderDiffs s) > 0 \<and>
      lastFullyAppliedRound s + 1 = d_round (outOfOrderDiffs s ! 0))"

text \<open>\<open>if lastDiff.fetched { Apply(...); if err != nil { log } }\<close>\<close>

definition applyWriteLog :: "env \<Rightarrow> fetchedDiff \<Rightarrow> wstate \<Rightarrow> wstate" where
  "applyWriteLog env lastDiff s =
     (if d_fetched lastDiff then
        let err = LocalApply env (trace s) (root_Namespace (d_thisRoot lastDiff))
                    (root_Round (d_prevRoot lastDiff)) (root_Hash (d_prevRoot lastDiff))
                    (root_Round (d_thisRoot lastDiff)) (root_Hash (d_thisRoot lastDiff))
                    (d_writeLog lastDiff);
            s1 = s\<lparr>trace := trace s @
                   [CallApply (root_Namespace (d_thisRoot lastDiff))
                      (root_Round (d_prevRoot lastDiff)) (root_Hash (d_prevRoot lastDiff))
                      (root_Round (d_thisRoot lastDiff)) (root_Hash (d_thisRoot lastDiff))
                      (d_writeLog lastDiff)]\<rparr>
        in if err \<noteq> None then s1\<lparr>trace := trace s1 @ [LogError CantApplyWriteLog]\<rparr> else s1
      else s)"

text \<open>
  The check whether the round is fully synced. A missing \<open>syncingRounds\<close> entry is a nil
  pointer that is written through: a panic. A missing \<open>hashCache\<close> entry makes
  \<open>summary\<close> nil; it would be pushed and the worker would panic at the next
  \<open>GetRound()\<close> on it (in the heap's \<open>up\<close>, or in the guard of a later iteration); the
  model reports that panic here.
\<close>

definition roundSynced :: "fetchedDiff \<Rightarrow> wstate \<Rightarrow> wstate outcome" where
  "roundSynced lastDiff s =
     (case syncingRounds s (d_round lastDiff) of
        None \<Rightarrow> Panic
      | Some syncing \<Rightarrow>
          let syncing = syncing\<lparr>outstanding := outstanding syncing AND NOT (d_fetchMask lastDiff)\<rparr>;
              s1 = s\<lparr>syncingRounds := (syncingRounds s)(d_round lastDiff \<mapsto> syncing)\<rparr>
          in
          if outstanding syncing = maskNone \<and> awaitingRetry syncing = maskNone then
            (case hashCache s1 (d_round lastDiff) of
               None \<Rightarrow> Panic
             | Some summary \<Rightarrow>
                 Next (s1\<lparr> syncingRounds := (syncingRounds s1)(d_round lastDiff := None),
                           hashCache := (hashCache s1)(d_round lastDiff - 1 := None),
                           lastFullyAppliedRound := d_round lastDiff,
                           outOfOrderApplieds := heap_Push Round (outOfOrderApplieds s1) summary \<rparr>))
          else Next s1)"

definition applyDiff :: "env \<Rightarrow> wstate \<Rightarrow> wstate outcome" where
  "applyDiff env s =
     (case heap_Pop d_round (outOfOrderDiffs s) of
        None \<Rightarrow> Panic
      | Some (lastDiff, q) \<Rightarrow>
          roundSynced lastDiff
            (applyWriteLog env lastDiff
               (s\<lparr>outOfOrderDiffs := q, trace := trace s @ [PopDiff lastDiff]\<rparr>)))"

subsection \<open>The main loop: draining the finalize queue\<close>

definition finalizeGuard :: "wstate \<Rightarrow> bool" where
  "finalizeGuard s =
     (length (outOfOrderApplieds s) > 0 \<and>
      cachedLastRound s + 1 = Round (outOfOrderApplieds s ! 0))"

definition spawnFinalize :: "wstate \<Rightarrow> wstate outcome" where
  "spawnFinalize s =
     (case heap_Pop Round (outOfOrderApplieds s) of
        None \<Rightarrow> Panic
      | Some (lastSummary, q) \<Rightarrow>
          Next (s\<lparr> outOfOrderApplieds := q,
                   finalizing := finalizing s @ [lastSummary],
                   trace := trace s @ [SpawnFinalize lastSummary] \<rparr>))"

subsection \<open>The main loop: a pruned block\<close>

text \<open>\<open>copy(ns[:], prunedBlk.RuntimeID[:])\<close> makes the namespace from the runtime identifier.\<close>

definition handlePruned :: "env \<Rightarrow> prunedBlock \<Rightarrow> wstate \<Rightarrow> wstate outcome" where
  "handlePruned env prunedBlk s =
     (let ns = pb_RuntimeID prunedBlk;
          err = LocalPrune env (trace s) ns (pb_Round prunedBlk);
          s1 = s\<lparr>trace := trace s @ [CallPrune ns (pb_Round prunedBlk)]\<rparr>
      in if err \<noteq> None then Next (s1\<lparr>trace := trace s1 @ [LogError FailedToPruneBlock]\<rparr>)
         else Next s1)"

subsection \<open>The main loop: a new block\<close>

text \<open>
  The summary installed for the undefined round. It is built from a zero
  \<open>blockSummary\<close>: only \<open>Namespace\<close> and \<open>Round\<close> are set, both roots are emptied and get
  their \<open>Round\<close>; the roots' namespace stays the zero namespace.
\<close>

definition dummySummary :: "block \<Rightarrow> round \<Rightarrow> blockSummary" where
  "dummySummary blk cached =
     \<lparr> Namespace = hdr_Namespace (Header blk),
       Round = cached + 1,
       IORoot = \<lparr> root_Namespace = 0, root_Round = cached + 1, root_Hash = EmptyHash \<rparr>,
       StateRoot = \<lparr> root_Namespace = 0, root_Round = cached + 1, root_Hash = EmptyHash \<rparr> \<rparr>"

definition installDummy :: "block \<Rightarrow> wstate \<Rightarrow> wstate" where
  "installDummy blk s =
     (if hashCache s (cachedLastRound s) = None \<and> cachedLastRound s = undefinedRound s
      then s\<lparr>hashCache := (hashCache s)(cachedLastRound s \<mapsto> dummySummary blk (cachedLastRound s))\<rparr>
      else s)"

definition startSummaryRound :: "wstate \<Rightarrow> round" where
  "startSummaryRound s =
     (let start = cachedLastRound s in
      if start = undefinedRound s then start + 1 else start)"

text \<open>
  \<open>for i := startSummaryRound; i < blk.Header.Round; i++\<close>: the summaries of old blocks.
  \<open>None\<close> is the panic after a failed \<open>GetBlock\<close>.
\<close>

function fetchSummaries :: "env \<Rightarrow> round \<Rightarrow> round \<Rightarrow> wstate \<Rightarrow> wstate option" where
  "fetchSummaries env i R s =
     (if i < R then
        (if hashCache s i \<noteq> None then fetchSummaries env (i + 1) R s
         else
           let s1 = s\<lparr>trace := trace s @ [CallGetBlock i]\<rparr> in
           (case GetBlock env (RuntimeID env) i of
              Inl err \<Rightarrow> None
            | Inr oldBlock \<Rightarrow>
                fetchSummaries env (i + 1) R
                  (s1\<lparr>hashCache := (hashCache s1)(i \<mapsto> summaryFromBlock oldBlock)\<rparr>)))
      else Some s)"
  by pat_completeness auto
termination
  by (relation "measure (\<lambda>(env, i, R, s). unat R - unat i)") (simp, unat_arith, unat_arith)

declare fetchSummaries.simps [simp del]

definition cacheBlock :: "block \<Rightarrow> wstate \<Rightarrow> wstate" where
  "cacheBlock blk s =
     (if hashCache s (hdr_Round (Header blk)) = None
      then s\<lparr>hashCache := (hashCache s)(hdr_Round (Header blk) \<mapsto> summaryFromBlock blk)\<rparr>
      else s)"

definition submitFetch :: "fetchTask \<Rightarrow> wstate \<Rightarrow> wstate" where
  "submitFetch task s = s\<lparr>fetching := fetching s @ [task], trace := trace s @ [SubmitFetch task]\<rparr>"

text \<open>
  The body of \<open>for i := cachedLastRound + 1; i <= blk.Header.Round; i++\<close>. \<open>syncing\<close> is a
  pointer into \<open>syncingRounds\<close>: every write to it is a write to the map. \<open>this\<close> is
  dereferenced in the body (a nil \<open>this\<close> panics), \<open>prev\<close> only by the state task.
\<close>

definition scheduleMask ::
  "round \<Rightarrow> outstandingMask \<Rightarrow> fetchTask \<Rightarrow> wstate \<Rightarrow> wstate" where
  "scheduleMask i m task s =
     (case syncingRounds s i of
        None \<Rightarrow> s
      | Some syncing \<Rightarrow>
          if outstanding syncing AND m = 0 \<and> awaitingRetry syncing AND m \<noteq> 0 then
            submitFetch task
              (s\<lparr>syncingRounds := (syncingRounds s)(i \<mapsto>
                    syncing\<lparr> outstanding := outstanding syncing OR m,
                             awaitingRetry := awaitingRetry syncing AND NOT m \<rparr>)\<rparr>)
          else s)"

definition scheduleRound :: "round \<Rightarrow> wstate \<Rightarrow> wstate outcome" where
  "scheduleRound i s =
     (if (case syncingRounds s i of None \<Rightarrow> False | Some syncing \<Rightarrow> outstanding syncing = maskAll)
      then Next s
      else
        let s1 = (if syncingRounds s i = None
                  then s\<lparr>syncingRounds := (syncingRounds s)(i \<mapsto>
                           \<lparr> outstanding = maskNone, awaitingRetry = maskAll \<rparr>)\<rparr>
                  else s);
            prev = hashCache s1 (i - 1)
        in
        (case hashCache s1 i of
           None \<Rightarrow> Panic
         | Some this \<Rightarrow>
             let prevIORoot = \<lparr> root_Namespace = root_Namespace (IORoot this),
                                root_Round = root_Round (IORoot this),
                                root_Hash = EmptyHash \<rparr>;
                 s2 = scheduleMask i maskIO
                        \<lparr> t_round = Round this, t_prevRoot = Some prevIORoot,
                          t_thisRoot = IORoot this, t_fetchMask = maskIO \<rparr> s1;
                 s3 = scheduleMask i maskState
                        \<lparr> t_round = Round this, t_prevRoot = map_option StateRoot prev,
                          t_thisRoot = StateRoot this, t_fetchMask = maskState \<rparr> s2
             in Next s3))"

text \<open>
  The scheduling loop. With \<open>blk.Header.Round = 2^64 - 1\<close> the condition \<open>i <= R\<close> holds
  for every \<open>i\<close>: after the body for \<open>i = 2^64 - 1\<close> the counter wraps to 0 and the loop
  goes on from round 0, where it panics on a missing summary or else keeps running. Either
  way the handler does not hand control back to the main loop; the model ends it at the
  wrap with \<open>NoReturn\<close> and does not tell the two apart. A block of that round is not a
  valid event (\<open>validBlock\<close>).
\<close>

function scheduleRounds :: "round \<Rightarrow> round \<Rightarrow> wstate \<Rightarrow> wstate outcome" where
  "scheduleRounds i R s =
     (if i \<le> R then
        (case scheduleRound i s of
           Next s1 \<Rightarrow> if i + 1 = 0 then NoReturn else scheduleRounds (i + 1) R s1
         | other \<Rightarrow> other)
      else Next s)"
  by pat_completeness auto
termination
  by (relation "measure (\<lambda>(i, R, s). Suc (unat R) - unat i)") (simp, unat_arith)

declare scheduleRounds.simps [simp del]

definition handleBlock :: "env \<Rightarrow> block \<Rightarrow> wstate \<Rightarrow> wstate outcome" where
  "handleBlock env blk s =
     (let s1 = installDummy blk s in
      case fetchSummaries env (startSummaryRound s1) (hdr_Round (Header blk)) s1 of
        None \<Rightarrow> Panic
      | Some s2 \<Rightarrow>
          let s3 = cacheBlock blk s2 in
          scheduleRounds (cachedLastRound s3 + 1) (hdr_Round (Header blk)) s3)"

subsection \<open>The main loop: a fetched diff and a finished finalize\<close>

text \<open>
  Running a submitted task: the closure calls \<open>fetchDiff\<close> against the store and client
  as they are at that time (\<open>fe\<close>); a nil \<open>prev\<close> panics.
\<close>

definition runFetch :: "fetchEnv \<Rightarrow> fetchTask \<Rightarrow> fetchOut option" where
  "runFetch fe task =
     (case t_prevRoot task of
        None \<Rightarrow> None
      | Some prevRoot \<Rightarrow>
          Some (fetchDiff fe (t_round task) prevRoot (t_thisRoot task) (t_fetchMask task)))"

text \<open>\<open>case item := <-n.diffCh\<close>\<close>

definition handleDiff :: "fetchedDiff \<Rightarrow> wstate \<Rightarrow> wstate outcome" where
  "handleDiff item s =
     (if d_err item \<noteq> None then
        let s1 = s\<lparr>trace := trace s @ [LogError ErrorCallingGetDiff]\<rparr> in
        (case syncingRounds s1 (d_round item) of
           None \<Rightarrow> Panic
         | Some syncing \<Rightarrow>
             Next (s1\<lparr>syncingRounds := (syncingRounds s1)(d_round item \<mapsto>
                        syncing\<lparr> outstanding := outstanding syncing AND NOT (d_fetchMask item),
                                 awaitingRetry := awaitingRetry syncing OR d_fetchMask item \<rparr>)\<rparr>))
      else Next (s\<lparr>outOfOrderDiffs := heap_Push d_round (outOfOrderDiffs s) item\<rparr>))"

text \<open>\<open>case finalized := <-n.finalizeCh\<close>\<close>

definition handleFinalized :: "env \<Rightarrow> blockSummary \<Rightarrow> wstate \<Rightarrow> wstate outcome" where
  "handleFinalized env finalized s =
     (let st = (syncedState s)\<lparr>LastBlock := (LastBlock (syncedState s))
                  \<lparr> Round := Round finalized,
                    IORoot := IORoot finalized,
                    StateRoot := StateRoot finalized \<rparr>\<rparr>;
          err = StoreUpdate env st;
          s1 = s\<lparr> syncedState := st,
                  trace := trace s @ [StoreState st],
                  cachedLastRound := Round finalized \<rparr>
      in if err \<noteq> None then Next (s1\<lparr>trace := trace s1 @ [LogError CantStoreWatcherState]\<rparr>)
         else Next s1)"

subsection \<open>One iteration of the main loop\<close>

text \<open>
  What \<open>select\<close> can receive. \<open>EvDiff n fe\<close>: the \<open>n\<close>-th task in flight has run against
  the store and client \<open>fe\<close> and its send on \<open>diffCh\<close> is received. \<open>EvFinalized n\<close>: the
  send of the \<open>n\<close>-th finalize goroutine in flight is received from \<open>finalizeCh\<close>.
\<close>

datatype event =
    EvPruned prunedBlock
  | EvBlock block
  | EvDiff nat fetchEnv
  | EvFinalized nat
  | EvDone

definition selectEvent :: "env \<Rightarrow> wstate \<Rightarrow> event \<Rightarrow> wstate outcome" where
  "selectEvent env s ev =
     (case ev of
        EvPruned prunedBlk \<Rightarrow> handlePruned env prunedBlk s
      | EvBlock blk \<Rightarrow> handleBlock env blk s
      | EvDiff n fe \<Rightarrow>
          if n \<ge> length (fetching s) then NotEnabled
          else
            let task = fetching s ! n in
            (case runFetch fe task of
               None \<Rightarrow> Panic
             | Some out \<Rightarrow>
                 (case sent out of
                    [] \<Rightarrow> NotEnabled
                  | item # rest \<Rightarrow> handleDiff item (s\<lparr>fetching := remove1 task (fetching s)\<rparr>)))
      | EvFinalized n \<Rightarrow>
          if n \<ge> length (finalizing s) then NotEnabled
          else
            let summary = finalizing s ! n in
            (case fin_sent (finalize env summary) of
               [] \<Rightarrow> NotEnabled
             | finalized # rest \<Rightarrow>
                 handleFinalized env finalized (s\<lparr>finalizing := remove1 summary (finalizing s)\<rparr>))
      | EvDone \<Rightarrow> Stopped s)"

text \<open>
  One pass through \<open>mainLoop\<close>: the apply queue is drained first, then the finalize
  queue, and only then does the loop wait in \<open>select\<close>; \<open>ev\<close> is what \<open>select\<close> receives if
  the pass gets there.
\<close>

definition mainLoop_iter :: "env \<Rightarrow> wstate \<Rightarrow> event \<Rightarrow> wstate outcome" where
  "mainLoop_iter env s ev =
     (if applyGuard s then applyDiff env s
      else if finalizeGuard s then spawnFinalize s
      else selectEvent env s ev)"

text \<open>
  Blocks come from roothash: their round is at or after the genesis round
  (\<open>undefinedRound + 1\<close>) and below \<open>2^64 - 1\<close>, the value reserved as \<open>RoundLatest\<close>.
\<close>

definition validBlock :: "wstate \<Rightarrow> block \<Rightarrow> bool" where
  "validBlock s blk =
     (undefinedRound s + 1 \<le> hdr_Round (Header blk) \<and> hdr_Round (Header blk) \<noteq> - 1)"

fun validEvent :: "wstate \<Rightarrow> event \<Rightarrow> bool" where
  "validEvent s (EvBlock blk) = validBlock s blk"
| "validEvent s ev = True"

text \<open>The states of a run: the state the main loop starts in, and every state a pass leads to.\<close>

inductive reachable :: "env \<Rightarrow> wstate \<Rightarrow> bool" for env :: env where
  reach_init: "worker_init env synced = Some s \<Longrightarrow> reachable env s"
| reach_iter: "reachable env s \<Longrightarrow> validEvent s ev \<Longrightarrow> mainLoop_iter env s ev = Next s' \<Longrightarrow>
     reachable env s'"

subsection \<open>Reading the trace\<close>


text \<open>The diffs popped from the diffs queue and the destination rounds of the \<open>Apply\<close>
  calls, in order.\<close>

fun popped :: "action list \<Rightarrow> fetchedDiff list" where
  "popped [] = []"
| "popped (PopDiff d # tr) = d # popped tr"
| "popped (a # tr) = popped tr"

fun applied :: "action list \<Rightarrow> round list" where
  "applied [] = []"
| "applied (CallApply ns r1 h1 r2 h2 wl # tr) = r2 # applied tr"
| "applied (a # tr) = applied tr"

text \<open>The number of \<open>Apply\<close> calls and of finalize goroutines started.\<close>

fun applyCalls :: "action list \<Rightarrow> nat" where
  "applyCalls [] = 0"
| "applyCalls (CallApply ns r1 h1 r2 h2 wl # tr) = Suc (applyCalls tr)"
| "applyCalls (a # tr) = applyCalls tr"

fun finalizeCalls :: "action list \<Rightarrow> nat" where
  "finalizeCalls [] = 0"
| "finalizeCalls (SpawnFinalize summary # tr) = Suc (finalizeCalls tr)"
| "finalizeCalls (a # tr) = finalizeCalls tr"

text \<open>
  The summaries the finalize goroutines were started for, and the rounds of the
  completions received from \<open>finalizeCh\<close> (each is followed by storing the watcher state),
  in order.
\<close>

fun spawned :: "action list \<Rightarrow> blockSummary list" where
  "spawned [] = []"
| "spawned (SpawnFinalize sm # tr) = sm # spawned tr"
| "spawned (a # tr) = spawned tr"

fun completed :: "action list \<Rightarrow> round list" where
  "completed [] = []"
| "completed (StoreState st # tr) = Round (LastBlock st) # completed tr"
| "completed (a # tr) = completed tr"

subsection \<open>Runs of the main loop\<close>

lemma length_q_Swap: "length (q_Swap q i j) = length q"
  by (simp add: q_Swap_def)

lemma length_heap_down: "length (heap_down k q i n) = length q"
  by (induction k q i n rule: heap_down.induct)
     (subst heap_down.simps, simp add: Let_def length_q_Swap)

lemma length_heap_up: "length (heap_up k q j) = length q"
  by (induction k q j rule: heap_up.induct)
     (subst heap_up.simps, simp add: Let_def length_q_Swap)

lemma length_heap_Push: "length (heap_Push k q x) = Suc (length q)"
  by (simp add: heap_Push_def Let_def length_heap_up q_Push_def)

lemma length_heap_Pop: "heap_Pop k q = Some (x, q') \<Longrightarrow> Suc (length q') = length q"
  by (auto simp: heap_Pop_def Let_def q_Pop_def length_heap_down length_q_Swap split: if_splits)

text \<open>The loops of the new-block handler change the hash cache, the round tracker, the
  tasks in flight and the trace, and nothing else.\<close>

lemma fetchSummaries_frame:
  "fetchSummaries env i R s = Some s' \<Longrightarrow>
     \<exists>hc tr. s' = s\<lparr>hashCache := hc, trace := tr\<rparr>"
proof (induction env i R s rule: fetchSummaries.induct)
  case (1 env i R s)
  show ?case
  proof (cases "i < R")
    case False
    with "1.prems" have "s' = s" by (subst (asm) fetchSummaries.simps) simp
    then have "s' = s\<lparr>hashCache := hashCache s, trace := trace s\<rparr>" by simp
    then show ?thesis by blast
  next
    case True
    show ?thesis
    proof (cases "hashCache s i")
      case (Some sm)
      with True "1.prems" have "fetchSummaries env (i + 1) R s = Some s'"
        by (subst (asm) fetchSummaries.simps) simp
      with "1.IH"(1) True Some show ?thesis by simp
    next
      case None
      with True "1.prems" obtain oldBlock where
        ob: "GetBlock env (RuntimeID env) i = Inr oldBlock" and
        rec: "fetchSummaries env (i + 1) R
                (s\<lparr>trace := trace s @ [CallGetBlock i],
                   hashCache := (hashCache s)(i \<mapsto> summaryFromBlock oldBlock)\<rparr>) = Some s'"
        by (subst (asm) fetchSummaries.simps) (auto simp: Let_def split: sum.splits)
      from "1.IH"(2) [OF True _ refl ob] None rec
      obtain hc tr where
        "s' = s\<lparr>trace := trace s @ [CallGetBlock i],
                hashCache := (hashCache s)(i \<mapsto> summaryFromBlock oldBlock)\<rparr>
                \<lparr>hashCache := hc, trace := tr\<rparr>"
        by auto
      then have "s' = s\<lparr>hashCache := hc, trace := tr\<rparr>" by simp
      then show ?thesis by blast
    qed
  qed
qed

lemma scheduleMask_frame:
  "\<exists>sr fe tr. scheduleMask i m task s = s\<lparr>syncingRounds := sr, fetching := fe, trace := tr\<rparr>"
proof (cases "scheduleMask i m task s = s")
  case True
  then have "scheduleMask i m task s =
      s\<lparr>syncingRounds := syncingRounds s, fetching := fetching s, trace := trace s\<rparr>" by simp
  then show ?thesis by blast
next
  case False
  then show ?thesis
    by (auto simp: scheduleMask_def submitFetch_def split: option.splits if_splits)
qed

lemma scheduleRound_frame:
  assumes "scheduleRound i s = Next s'"
  shows "\<exists>sr fe tr. s' = s\<lparr>syncingRounds := sr, fetching := fe, trace := tr\<rparr>"
proof (cases "s' = s")
  case True
  then have "s' = s\<lparr>syncingRounds := syncingRounds s, fetching := fetching s, trace := trace s\<rparr>"
    by simp
  then show ?thesis by blast
next
  case False
  define s1 where "s1 = (if syncingRounds s i = None
                  then s\<lparr>syncingRounds := (syncingRounds s)(i \<mapsto>
                           \<lparr> outstanding = maskNone, awaitingRetry = maskAll \<rparr>)\<rparr>
                  else s)"
  have f1: "\<exists>sr. s1 = s\<lparr>syncingRounds := sr\<rparr>"
  proof (cases "syncingRounds s i")
    case None
    then show ?thesis by (auto simp: s1_def)
  next
    case (Some a)
    then have "s1 = s\<lparr>syncingRounds := syncingRounds s\<rparr>" by (simp add: s1_def)
    then show ?thesis by blast
  qed
  from f1 obtain sr0 where g0: "s1 = s\<lparr>syncingRounds := sr0\<rparr>" by blast
  from assms False obtain t1 t2 where
    g: "s' = scheduleMask i maskState t2 (scheduleMask i maskIO t1 s1)"
    by (auto simp: scheduleRound_def Let_def s1_def split: if_splits option.splits)
  obtain sr1 fe1 tr1 where
    g1: "scheduleMask i maskIO t1 s1 = s1\<lparr>syncingRounds := sr1, fetching := fe1, trace := tr1\<rparr>"
    using scheduleMask_frame by blast
  obtain sr2 fe2 tr2 where
    g2: "scheduleMask i maskState t2 (scheduleMask i maskIO t1 s1) =
       (scheduleMask i maskIO t1 s1)\<lparr>syncingRounds := sr2, fetching := fe2, trace := tr2\<rparr>"
    using scheduleMask_frame by blast
  have "s' = (scheduleMask i maskIO t1 s1)\<lparr>syncingRounds := sr2, fetching := fe2, trace := tr2\<rparr>"
    by (simp only: g g2)
  then have "s' = s\<lparr>syncingRounds := sr2, fetching := fe2, trace := tr2\<rparr>"
    by (simp add: g1 [unfolded g0] g0)
  then show ?thesis by blast
qed

lemma scheduleRounds_frame:
  "scheduleRounds i R s = Next s' \<Longrightarrow>
     \<exists>sr fe tr. s' = s\<lparr>syncingRounds := sr, fetching := fe, trace := tr\<rparr>"
proof (induction i R s rule: scheduleRounds.induct)
  case (1 i R s)
  show ?case
  proof (cases "i \<le> R")
    case False
    with "1.prems" have "s' = s" by (subst (asm) scheduleRounds.simps) simp
    then have "s' = s\<lparr>syncingRounds := syncingRounds s, fetching := fetching s, trace := trace s\<rparr>"
      by simp
    then show ?thesis by blast
  next
    case True
    with "1.prems" obtain s1 where
      a: "scheduleRound i s = Next s1" and b: "i + 1 \<noteq> 0" and
      c: "scheduleRounds (i + 1) R s1 = Next s'"
      by (subst (asm) scheduleRounds.simps) (auto split: outcome.splits if_splits)
    from scheduleRound_frame [OF a] obtain sr fe tr where
      d: "s1 = s\<lparr>syncingRounds := sr, fetching := fe, trace := tr\<rparr>" by blast
    from "1.IH" [OF True a b c] obtain sr' fe' tr' where
      "s' = s1\<lparr>syncingRounds := sr', fetching := fe', trace := tr'\<rparr>" by blast
    with d have "s' = s\<lparr>syncingRounds := sr', fetching := fe', trace := tr'\<rparr>" by simp
    then show ?thesis by blast
  qed
qed

lemma handleBlock_frame:
  assumes "handleBlock env blk s = Next s'"
  shows "\<exists>hc sr fe tr.
           s' = s\<lparr>hashCache := hc, syncingRounds := sr, fetching := fe, trace := tr\<rparr>"
proof -
  have a: "\<exists>hc. installDummy blk s = s\<lparr>hashCache := hc\<rparr>"
  proof (cases "installDummy blk s = s")
    case True
    then have "installDummy blk s = s\<lparr>hashCache := hashCache s\<rparr>" by simp
    then show ?thesis by blast
  next
    case False
    then show ?thesis by (auto simp: installDummy_def split: if_splits)
  qed
  have b: "\<exists>hc. cacheBlock blk t = t\<lparr>hashCache := hc\<rparr>" for t
  proof (cases "cacheBlock blk t = t")
    case True
    then have "cacheBlock blk t = t\<lparr>hashCache := hashCache t\<rparr>" by simp
    then show ?thesis by blast
  next
    case False
    then show ?thesis by (auto simp: cacheBlock_def split: if_splits)
  qed
  from assms obtain s2 where
    c: "fetchSummaries env (startSummaryRound (installDummy blk s)) (hdr_Round (Header blk))
          (installDummy blk s) = Some s2" and
    d: "scheduleRounds (cachedLastRound (cacheBlock blk s2) + 1) (hdr_Round (Header blk))
          (cacheBlock blk s2) = Next s'"
    by (auto simp: handleBlock_def Let_def split: option.splits)
  from a obtain hc0 where a': "installDummy blk s = s\<lparr>hashCache := hc0\<rparr>" by blast
  from fetchSummaries_frame [OF c] obtain hc1 tr1 where
    c': "s2 = (installDummy blk s)\<lparr>hashCache := hc1, trace := tr1\<rparr>" by blast
  from b obtain hc2 where b': "cacheBlock blk s2 = s2\<lparr>hashCache := hc2\<rparr>" by blast
  from scheduleRounds_frame [OF d] obtain sr fe tr where
    d': "s' = (cacheBlock blk s2)\<lparr>syncingRounds := sr, fetching := fe, trace := tr\<rparr>" by blast
  have "s' = s\<lparr>hashCache := hc2, syncingRounds := sr, fetching := fe, trace := tr\<rparr>"
    by (simp only: d' b') (simp add: c' a')
  then show ?thesis by blast
qed

text \<open>
  A run over a list of events: each pass drains if it can and otherwise takes the next
  event; the run ends when nothing can be drained and no event is left.
\<close>

function run :: "env \<Rightarrow> wstate \<Rightarrow> event list \<Rightarrow> wstate outcome" where
  "run env s evs =
     (if applyGuard s then
        (case applyDiff env s of Next s1 \<Rightarrow> run env s1 evs | other \<Rightarrow> other)
      else if finalizeGuard s then
        (case spawnFinalize s of Next s1 \<Rightarrow> run env s1 evs | other \<Rightarrow> other)
      else
        (case evs of
           [] \<Rightarrow> Next s
         | ev # evs1 \<Rightarrow>
             (case selectEvent env s ev of Next s1 \<Rightarrow> run env s1 evs1 | other \<Rightarrow> other)))"
  by pat_completeness auto
termination
proof (relation "measure (\<lambda>(env, s, evs).
          3 * length evs + 2 * length (outOfOrderDiffs s) + length (outOfOrderApplieds s))",
       goal_cases)
  case 1
  show ?case by simp
next
  case (2 env s evs s1)
  then show ?case
    by (auto simp: applyDiff_def roundSynced_def applyWriteLog_def Let_def length_heap_Push
             split: option.splits if_splits dest!: length_heap_Pop)
next
  case (3 env s evs s1)
  then show ?case
    by (auto simp: spawnFinalize_def split: option.splits dest!: length_heap_Pop)
next
  case (4 env s evs ev evs1 s1)
  then show ?case
    by (auto simp: selectEvent_def handlePruned_def handleDiff_def handleFinalized_def Let_def
                   length_heap_Push
             split: event.splits if_splits option.splits list.splits dest!: handleBlock_frame)
qed

declare run.simps [simp del]

subsection \<open>Invariants of the main loop\<close>

text \<open>No subtree is both outstanding and awaiting retry.\<close>

definition disjointMasks :: "(round \<rightharpoonup> inFlight) \<Rightarrow> bool" where
  "disjointMasks sr = (\<forall>r f. sr r = Some f \<longrightarrow> outstanding f AND awaitingRetry f = 0)"

text \<open>The roots of a cached summary, of a task and of a fetched diff carry the round of the
  summary, task or diff.\<close>

definition wfSummary :: "blockSummary \<Rightarrow> bool" where
  "wfSummary sm = (root_Round (IORoot sm) = Round sm \<and> root_Round (StateRoot sm) = Round sm)"

definition wfRoots :: "wstate \<Rightarrow> bool" where
  "wfRoots s =
     ((\<forall>k sm. hashCache s k = Some sm \<longrightarrow> wfSummary sm) \<and>
      (\<forall>t\<in>set (fetching s). root_Round (t_thisRoot t) = t_round t) \<and>
      (\<forall>d\<in>set (outOfOrderDiffs s). root_Round (d_thisRoot d) = d_round d))"

text \<open>
  The rounds of the diffs popped so far go up in steps of zero or one, the last of them
  is the last fully applied round or the one after it, and the \<open>Apply\<close> calls are the
  popped diffs that were fetched.
\<close>

definition popOrder :: "wstate \<Rightarrow> bool" where
  "popOrder s =
     (successively (\<lambda>a b. b = a \<or> b = a + 1) (map d_round (popped (trace s))) \<and>
      (popped (trace s) = [] \<or>
       d_round (last (popped (trace s))) = lastFullyAppliedRound s \<or>
       d_round (last (popped (trace s))) = lastFullyAppliedRound s + 1) \<and>
      applied (trace s) = map d_round (filter d_fetched (popped (trace s))))"

text \<open>
  The position of a round counted from \<open>2^64 - 1\<close>, the undefined round of a runtime
  whose genesis round is 0: in this order the undefined round comes before every round
  of the runtime.
\<close>

definition rpos :: "round \<Rightarrow> nat" where
  "rpos x = unat (x + 1)"

text \<open>The roothash backend answers \<open>GetBlock\<close> with the block of the round asked for.\<close>

definition wfEnv :: "env \<Rightarrow> bool" where
  "wfEnv env = (\<forall>i blk. GetBlock env (RuntimeID env) i = Inr blk \<longrightarrow> hdr_Round (Header blk) = i)"

text \<open>
  Every summary in \<open>hashCache\<close> is stored under its own round; the entry of the undefined
  round is the one exception.
\<close>

definition keyedCache :: "wstate \<Rightarrow> bool" where
  "keyedCache s =
     (\<forall>k sm. hashCache s k = Some sm \<longrightarrow> k \<noteq> undefinedRound s \<longrightarrow> Round sm = k)"

text \<open>\<open>undefinedRound\<close>, \<open>cachedLastRound\<close> and \<open>lastFullyAppliedRound\<close> come in this order.\<close>

definition roundsOrdered :: "wstate \<Rightarrow> bool" where
  "roundsOrdered s =
     (rpos (undefinedRound s) \<le> rpos (cachedLastRound s) \<and>
      rpos (cachedLastRound s) \<le> rpos (lastFullyAppliedRound s))"

text \<open>
  A fetch in flight, and a fetched diff waiting in the diffs queue, is identified by its
  round and its subtree. No two of them have the same round and subtree, and each is
  marked outstanding in the tracker of its round.
\<close>

definition taskKey :: "fetchTask \<Rightarrow> round \<times> outstandingMask" where
  "taskKey t = (t_round t, t_fetchMask t)"

definition diffKey :: "fetchedDiff \<Rightarrow> round \<times> outstandingMask" where
  "diffKey d = (d_round d, d_fetchMask d)"

definition inFlightKeys :: "wstate \<Rightarrow> (round \<times> outstandingMask) list" where
  "inFlightKeys s = map taskKey (fetching s) @ map diffKey (outOfOrderDiffs s)"

definition trackedKey ::
  "round \<Rightarrow> (round \<rightharpoonup> inFlight) \<Rightarrow> round \<times> outstandingMask \<Rightarrow> bool" where
  "trackedKey u sr k =
     ((snd k = maskIO \<or> snd k = maskState) \<and>
      rpos u < rpos (fst k) \<and>
      (\<exists>f. sr (fst k) = Some f \<and> outstanding f AND snd k = snd k))"

definition tracked :: "wstate \<Rightarrow> bool" where
  "tracked s =
     (distinct (inFlightKeys s) \<and>
      (\<forall>k\<in>set (inFlightKeys s). trackedKey (undefinedRound s) (syncingRounds s) k))"

text \<open>
  The summaries being finalized and those waiting in the applieds queue have different
  rounds, all after \<open>cachedLastRound\<close> and up to \<open>lastFullyAppliedRound\<close>; a summary being
  finalized has round \<open>cachedLastRound + 1\<close>.
\<close>

definition finalizeOrder :: "wstate \<Rightarrow> bool" where
  "finalizeOrder s =
     (distinct (map Round (finalizing s @ outOfOrderApplieds s)) \<and>
      (\<forall>sm\<in>set (finalizing s @ outOfOrderApplieds s).
         rpos (cachedLastRound s) < rpos (Round sm) \<and>
         rpos (Round sm) \<le> rpos (lastFullyAppliedRound s)) \<and>
      (\<forall>sm\<in>set (finalizing s). Round sm = cachedLastRound s + 1))"

text \<open>
  The finalize goroutines are started for consecutive rounds; the last one started is for
  \<open>cachedLastRound\<close> when none is running and for \<open>cachedLastRound + 1\<close> otherwise.
\<close>

definition spawnOrder :: "wstate \<Rightarrow> bool" where
  "spawnOrder s =
     (successively (\<lambda>a b. b = a + 1) (map Round (spawned (trace s))) \<and>
      (spawned (trace s) = [] \<or>
       Round (last (spawned (trace s))) =
         (if finalizing s = [] then cachedLastRound s else cachedLastRound s + 1)))"

definition loopInv :: "wstate \<Rightarrow> bool" where
  "loopInv s = (keyedCache s \<and> roundsOrdered s \<and> tracked s \<and> finalizeOrder s \<and> spawnOrder s)"

text \<open>
  A popped diff is identified by its round and its subtree, as a diff in the queue is. No
  two popped diffs have the same round and subtree, and the subtree of a popped diff is
  done: its round is fully applied, or the tracker of its round has the subtree neither
  outstanding nor awaiting retry.
\<close>

definition doneKey ::
  "round \<Rightarrow> (round \<rightharpoonup> inFlight) \<Rightarrow> round \<times> outstandingMask \<Rightarrow> bool" where
  "doneKey l sr k =
     ((snd k = maskIO \<or> snd k = maskState) \<and>
      (rpos (fst k) \<le> rpos l \<or>
       (\<exists>f. sr (fst k) = Some f \<and> outstanding f AND snd k = 0 \<and>
            awaitingRetry f AND snd k = 0)))"

definition popDone :: "wstate \<Rightarrow> bool" where
  "popDone s =
     (distinct (map diffKey (popped (trace s))) \<and>
      (\<forall>k\<in>set (map diffKey (popped (trace s))).
         doneKey (lastFullyAppliedRound s) (syncingRounds s) k))"

subsection \<open>Sample collaborators\<close>

definition exBlock :: "round \<Rightarrow> block" where
  "exBlock r = \<lparr> Header = \<lparr> hdr_Namespace = 7, hdr_Round = r,
       hdr_IORoot = Digest (2 * unat r + 1), hdr_StateRoot = Digest (2 * unat r + 2) \<rparr> \<rparr>"

text \<open>A runtime whose genesis block has round \<open>g\<close> and whose latest block has round 5.\<close>

definition exEnv :: "round \<Rightarrow> env" where
  "exEnv g = \<lparr> RuntimeID = 7,
     GetGenesisBlock = (\<lambda>rid. Inr (exBlock g)),
     GetBlock = (\<lambda>rid r. Inr (exBlock r)),
     GetLatestBlock = (\<lambda>rid. Inr (exBlock 5)),
     WatchPrunedBlocks = None,
     LocalApply = (\<lambda>tr ns r1 h1 r2 h2 wl. None),
     LocalPrune = (\<lambda>tr ns r. None),
     LocalFinalize = (\<lambda>ns r hs. None),
     StoreUpdate = (\<lambda>st. None) \<rparr>"

definition exFetch :: fetchEnv where
  "exFetch = \<lparr> HasRoot = (\<lambda>r. False),
               GetDiff = (\<lambda>p t. Inr [ItChunk (1, 2), ItChunk (3, 4)]) \<rparr>"

definition exFetchFail :: fetchEnv where
  "exFetchFail = \<lparr> HasRoot = (\<lambda>r. False),
                   GetDiff = (\<lambda>p t. Inr [ItChunk (1, 2), ItValueErr (ErrOther 9), ItChunk (3, 4)]) \<rparr>"

definition exFetchHas :: fetchEnv where
  "exFetchHas = \<lparr> HasRoot = (\<lambda>r. True), GetDiff = (\<lambda>p t. Inl (ErrOther 1)) \<rparr>"

text \<open>The same runtime with a local store whose \<open>Apply\<close> always fails.\<close>

definition exEnvFailing :: "round \<Rightarrow> env" where
  "exEnvFailing g = (exEnv g)\<lparr>LocalApply := (\<lambda>tr ns r1 h1 r2 h2 wl. Some (ErrOther 3))\<rparr>"

fun stateOf :: "'a outcome \<Rightarrow> 'a option" where
  "stateOf (Next s) = Some s"
| "stateOf other = None"

text \<open>The state after a run of the sample runtime, started from the stored state.\<close>

definition exRun :: "round \<Rightarrow> watcherState option \<Rightarrow> event list \<Rightarrow> wstate option" where
  "exRun g stored evs =
     (case worker_init (exEnv g) (NewNode_syncedState stored) of
        None \<Rightarrow> None
      | Some s \<Rightarrow> stateOf (run (exEnv g) s evs))"

definition exState :: "round \<Rightarrow> watcherState option \<Rightarrow> event list \<Rightarrow> wstate" where
  "exState g stored evs = the (exRun g stored evs)"

text \<open>
  A state in which a pass will apply: round 0 has its state diff applied and its IO diff,
  just received, at the head of the queue.
\<close>

definition exQueued :: wstate where
  "exQueued = the (stateOf (selectEvent (exEnv 0)
      (exState 0 None [EvBlock (exBlock 0), EvDiff 1 exFetch]) (EvDiff 0 exFetch)))"

text \<open>
  Two runs from genesis round 0. In \<open>exRepeat\<close> block 0 arrives and both its diffs are
  fetched. In \<open>exGap\<close> block 2 arrives; the diffs of rounds 0 and 2 are fetched, the roots
  of round 1 are already in the local store.
\<close>

definition exRepeat :: wstate where
  "exRepeat = exState 0 None [EvBlock (exBlock 0), EvDiff 0 exFetch, EvDiff 0 exFetch]"

definition exGap :: wstate where
  "exGap = exState 0 None
     [EvBlock (exBlock 2), EvDiff 0 exFetch, EvDiff 0 exFetch,
      EvDiff 0 exFetchHas, EvDiff 0 exFetchHas, EvDiff 0 exFetch, EvDiff 0 exFetch]"

text \<open>A stored watcher state whose last block has round \<open>r\<close>.\<close>

definition exSynced :: "round \<Rightarrow> watcherState" where
  "exSynced r = \<lparr> LastBlock = summaryFromBlock (exBlock r) \<rparr>"

definition exRootA :: root where
  "exRootA = \<lparr> root_Namespace = 7, root_Round = 2, root_Hash = Digest 4 \<rparr>"

definition exRootB :: root where
  "exRootB = \<lparr> root_Namespace = 7, root_Round = 3, root_Hash = Digest 6 \<rparr>"

text \<open>
  Block 1 arrives and the four diffs of rounds 0 and 1 are fetched and applied: the
  finalize of round 0 is running and the summary of round 1 waits. In \<open>exCompleted\<close> the
  completion of that finalize has just been received.
\<close>

definition exApplied :: wstate where
  "exApplied = exState 0 None
     [EvBlock (exBlock 1), EvDiff 0 exFetch, EvDiff 0 exFetch, EvDiff 0 exFetch, EvDiff 0 exFetch]"

definition exCompleted :: wstate where
  "exCompleted = the (stateOf (selectEvent (exEnv 0) exApplied (EvFinalized 0)))"

text \<open>Block 1 arrives and only the two diffs of round 1 are fetched: round 0 is still missing.\<close>

definition exPair :: wstate where
  "exPair = exState 0 None [EvBlock (exBlock 1), EvDiff 2 exFetch, EvDiff 2 exFetch]"

text \<open>
  Block 3 arrives; the diffs of rounds 0 and 1 are fetched and applied, then the two
  diffs of round 3.
\<close>

definition exBusy :: wstate where
  "exBusy = exState 0 None
     [EvBlock (exBlock 3), EvDiff 0 exFetch, EvDiff 0 exFetch, EvDiff 0 exFetch, EvDiff 0 exFetch,
      EvDiff 2 exFetch, EvDiff 2 exFetch]"

text \<open>
  In \<open>exRepeat\<close> round 0 is applied and its finalize is running. In \<open>exRefetched\<close> block 0
  is then delivered again, before the completion of that finalize is received.
\<close>

definition exRefetched :: wstate where
  "exRefetched = exState 0 None
     [EvBlock (exBlock 0), EvDiff 0 exFetch, EvDiff 0 exFetch, EvBlock (exBlock 0)]"

text \<open>
  Two runs in which block 1 follows and every fetch completes. In \<open>exOnce\<close> block 0 is
  delivered once. In \<open>exTwice\<close> it is delivered again while the finalize of round 0 is
  running; the fetches of round 0 submitted again find the roots in the local store.
\<close>

definition exOnce :: wstate where
  "exOnce = exState 0 None
     [EvBlock (exBlock 0), EvDiff 0 exFetch, EvDiff 0 exFetch,
      EvFinalized 0, EvBlock (exBlock 1), EvDiff 0 exFetch, EvDiff 0 exFetch]"

definition exTwice :: wstate where
  "exTwice = exState 0 None
     [EvBlock (exBlock 0), EvDiff 0 exFetch, EvDiff 0 exFetch, EvBlock (exBlock 0),
      EvFinalized 0, EvBlock (exBlock 1), EvDiff 0 exFetchHas, EvDiff 0 exFetchHas,
      EvDiff 0 exFetch, EvDiff 0 exFetch]"

section \<open>The priority queue\<close>

text \<open>Pushing adds the item, popping removes the item at index 0; the other items stay.\<close>

lemma mset_q_Swap: "i < length q \<Longrightarrow> j < length q \<Longrightarrow> mset (q_Swap q i j) = mset q"
  unfolding q_Swap_def by (rule mset_swap)

lemma nth_q_Swap_other: "m \<noteq> i \<Longrightarrow> m \<noteq> j \<Longrightarrow> q_Swap q i j ! m = q ! m"
  by (simp add: q_Swap_def)

lemma nth_q_Swap_right: "j < length q \<Longrightarrow> q_Swap q i j ! j = q ! i"
  by (simp add: q_Swap_def)

lemma heap_down_props:
  "n \<le> length q \<Longrightarrow>
     mset (heap_down k q i n) = mset q \<and> (\<forall>m\<ge>n. heap_down k q i n ! m = q ! m)"
proof (induction k q i n rule: heap_down.induct)
  case (1 k q i n)
  define j where "j = (if 2 * i + 1 + 1 < n \<and> q_Less k q (2 * i + 1 + 1) (2 * i + 1) then 2 * i + 1 + 1 else 2 * i + 1)"
  have unf: "heap_down k q i n =
      (if 2 * i + 1 \<ge> n then q
       else if \<not> q_Less k q j i then q else heap_down k (q_Swap q i j) j n)"
    using heap_down.simps [of k q i n] by (simp add: Let_def j_def)
  show ?case
  proof (cases "2 * i + 1 \<ge> n \<or> \<not> q_Less k q j i")
    case True
    then show ?thesis by (auto simp: unf)
  next
    case False
    then have jn: "j < n" and ij: "i < n" by (auto simp: j_def split: if_splits)
    have "mset (heap_down k (q_Swap q i j) j n) = mset (q_Swap q i j) \<and>
                (\<forall>m\<ge>n. heap_down k (q_Swap q i j) j n ! m = q_Swap q i j ! m)"
      using "1.IH" [of "2 * i + 1" j] False "1.prems" by (simp add: j_def length_q_Swap)
    then show ?thesis
      using False jn ij "1.prems" by (simp add: unf mset_q_Swap nth_q_Swap_other)
  qed
qed

lemma heap_up_mset: "j < length q \<Longrightarrow> mset (heap_up k q j) = mset q"
proof (induction k q j rule: heap_up.induct)
  case (1 k q j)
  have unf: "heap_up k q j =
     (if (j - 1) div 2 = j \<or> \<not> q_Less k q j ((j - 1) div 2) then q
      else heap_up k (q_Swap q ((j - 1) div 2) j) ((j - 1) div 2))"
    using heap_up.simps [of k q j] by (simp add: Let_def)
  show ?case
  proof (cases "(j - 1) div 2 = j \<or> \<not> q_Less k q j ((j - 1) div 2)")
    case True
    then show ?thesis by (auto simp: unf)
  next
    case False
    have lt: "(j - 1) div 2 < length q" using "1.prems" by simp
    have "mset (heap_up k (q_Swap q ((j - 1) div 2) j) ((j - 1) div 2)) = mset (q_Swap q ((j - 1) div 2) j)"
      using "1.IH" [of "(j - 1) div 2"] False lt by (simp add: length_q_Swap)
    then show ?thesis using False lt "1.prems" by (simp add: unf mset_q_Swap)
  qed
qed

lemma mset_heap_Push: "mset (heap_Push k q x) = add_mset x (mset q)"
  by (simp add: heap_Push_def Let_def q_Push_def heap_up_mset)

lemma heap_Pop_None: "heap_Pop k q = None \<longleftrightarrow> q = []"
proof (cases "q = []")
  case True
  then show ?thesis by (simp add: heap_Pop_def)
next
  case False
  have "length (heap_down k (q_Swap q 0 (length q - 1)) 0 (length q - 1)) = length q"
    by (simp add: length_heap_down length_q_Swap)
  with False have "heap_down k (q_Swap q 0 (length q - 1)) 0 (length q - 1) \<noteq> []"
    by auto
  with False show ?thesis by (simp add: heap_Pop_def Let_def q_Pop_def)
qed

lemma heap_Pop_Some:
  assumes "heap_Pop k q = Some (x, q')"
  shows "x = q ! 0 \<and> mset q = add_mset x (mset q')"
proof -
  from assms have ne: "q \<noteq> []" by (auto simp: heap_Pop_def split: if_splits)
  define n where "n = length q - 1"
  define q2 where "q2 = heap_down k (q_Swap q 0 n) 0 n"
  have n: "n < length q" using ne by (simp add: n_def)
  have len2: "length q2 = Suc n" using ne by (simp add: q2_def length_heap_down length_q_Swap n_def)
  have z: "0 < length q" using ne by simp
  from heap_down_props [of n "q_Swap q 0 n" k 0] n z
  have p: "mset q2 = mset q" "q2 ! n = q ! 0"
    by (simp_all add: q2_def length_q_Swap mset_q_Swap nth_q_Swap_right)
  have ne2: "q2 \<noteq> []" using len2 by auto
  have "heap_Pop k q = q_Pop q2" using ne by (simp add: heap_Pop_def Let_def q2_def n_def)
  with assms have "q_Pop q2 = Some (x, q')" by simp
  with ne2 len2 have r: "x = q2 ! n" "q' = take n q2"
    by (simp_all add: q_Pop_def)
  have "take (Suc n) q2 = take n q2 @ [q2 ! n]"
    by (rule take_Suc_conv_app_nth) (simp add: len2)
  moreover have "take (Suc n) q2 = q2" by (simp add: len2)
  ultimately have "mset q2 = mset (take n q2 @ [q2 ! n])" by simp
  then have "mset q2 = add_mset (q2 ! n) (mset (take n q2))" by simp
  with p r show ?thesis by simp
qed

lemma heap_Pop_set:
  assumes "heap_Pop k q = Some (x, q')"
  shows "set q = insert x (set q')"
  using heap_Pop_Some [OF assms] by (metis set_mset_add_mset_insert set_mset_mset)

lemma set_heap_Push: "set (heap_Push k q x) = insert x (set q)"
  using mset_heap_Push [of k q x] by (metis set_mset_add_mset_insert set_mset_mset)

section \<open>The diff fetcher\<close>

lemma consume_streamed:
  "consume it result =
     result\<lparr> d_writeLog := d_writeLog result @ streamed it,
             d_err := (case streamErr it of None \<Rightarrow> d_err result | Some e \<Rightarrow> Some e) \<rparr>"
  by (induction it result rule: consume.induct) (simp_all split: option.splits)

text \<open>
  Claim C3. Every call of \<open>fetchDiff\<close> sends exactly one result on the diff channel, and
  the result carries the call's round, roots and mask. If the local store has the new
  root, the result is not fetched, its write log is empty and \<open>GetDiff\<close> is not called.
  Otherwise, if the two roots have the same hash, the result is fetched with an empty
  write log, again without a \<open>GetDiff\<close> call. Otherwise \<open>GetDiff\<close> is called once, the result
  is fetched, its write log is the chunks streamed, in order, and its error is the
  failure of \<open>GetDiff\<close> or of the stream, if there is one.
\<close>

theorem fetchDiff_result:
  "\<exists>d. sent (fetchDiff fe rnd prevRoot thisRoot m) = [d] \<and>
       d_round d = rnd \<and> d_prevRoot d = prevRoot \<and> d_thisRoot d = thisRoot \<and> d_fetchMask d = m \<and>
       (HasRoot fe thisRoot \<longrightarrow>
          \<not> d_fetched d \<and> d_writeLog d = [] \<and> d_err d = None \<and>
          getDiffCalls (fetchDiff fe rnd prevRoot thisRoot m) = []) \<and>
       (\<not> HasRoot fe thisRoot \<and> root_Hash thisRoot = root_Hash prevRoot \<longrightarrow>
          d_fetched d \<and> d_writeLog d = [] \<and> d_err d = None \<and>
          getDiffCalls (fetchDiff fe rnd prevRoot thisRoot m) = []) \<and>
       (\<not> HasRoot fe thisRoot \<and> root_Hash thisRoot \<noteq> root_Hash prevRoot \<longrightarrow>
          d_fetched d \<and>
          getDiffCalls (fetchDiff fe rnd prevRoot thisRoot m) = [(prevRoot, thisRoot)] \<and>
          (case GetDiff fe prevRoot thisRoot of
             Inl e \<Rightarrow> d_err d = Some e \<and> d_writeLog d = []
           | Inr it \<Rightarrow> d_writeLog d = streamed it \<and> d_err d = streamErr it))"
  by (auto simp: fetchDiff_def fetchDiff_body_def Let_def consume_streamed
           split: sum.splits option.splits)

theorem fetchDiff_result_witness:
  "sent (fetchDiff exFetchFail 3 exRootA exRootB maskState) =
     [\<lparr> d_fetchMask = maskState, d_fetched = True, d_err = Some (ErrOther 9), d_round = 3,
        d_prevRoot = exRootA, d_thisRoot = exRootB, d_writeLog = [(1, 2)] \<rparr>] \<and>
   getDiffCalls (fetchDiff exFetchFail 3 exRootA exRootB maskState) = [(exRootA, exRootB)] \<and>
   sent (fetchDiff exFetch 3 exRootA (exRootB\<lparr>root_Hash := Digest 4\<rparr>) maskState) =
     [\<lparr> d_fetchMask = maskState, d_fetched = True, d_err = None, d_round = 3,
        d_prevRoot = exRootA, d_thisRoot = exRootB\<lparr>root_Hash := Digest 4\<rparr>, d_writeLog = [] \<rparr>] \<and>
   getDiffCalls (fetchDiff exFetch 3 exRootA (exRootB\<lparr>root_Hash := Digest 4\<rparr>) maskState) = [] \<and>
   sent (fetchDiff exFetchHas 3 exRootA exRootB maskState) =
     [\<lparr> d_fetchMask = maskState, d_fetched = False, d_err = None, d_round = 3,
        d_prevRoot = exRootA, d_thisRoot = exRootB, d_writeLog = [] \<rparr>] \<and>
   getDiffCalls (fetchDiff exFetchHas 3 exRootA exRootB maskState) = []"
  using fetchDiff_result [of exFetchFail 3 exRootA exRootB maskState]
        fetchDiff_result [of exFetch 3 exRootA "exRootB\<lparr>root_Hash := Digest 4\<rparr>" maskState]
        fetchDiff_result [of exFetchHas 3 exRootA exRootB maskState]
  by (auto simp: exFetchFail_def exFetch_def exFetchHas_def exRootA_def exRootB_def)

section \<open>ForceFinalize\<close>

text \<open>
  Claim C8. \<open>ForceFinalize\<close> called with \<open>RoundLatest\<close> looks up the latest block, here
  the block of round 5, and then calls the local store's \<open>Finalize\<close> with the round it
  was given, \<open>2^64 - 1\<close>, not with the round of the block it looked up.
\<close>

theorem ForceFinalize_latest_round:
  "GetLatestBlock (exEnv 0) 7 = Inr (exBlock 5) \<and>
   hdr_Round (Header (exBlock 5)) = 5 \<and>
   map fc_Round (snd (ForceFinalize (exEnv 0) 7 RoundLatest)) = [18446744073709551615]"
  by (simp add: ForceFinalize_def exEnv_def exBlock_def RoundLatest_def)

section \<open>Start of the worker\<close>

text \<open>
  Claim C10. If the stored last-synced round is the all-ones default (as \<open>NewNode\<close>
  presets it) or lies below the round of the genesis block, the worker starts as never
  synced: the undefined round, the cached last round and the last fully applied round
  are all the genesis round minus one, the catch-up of summaries starts at the genesis
  round, and the first round scheduled, \<open>cachedLastRound + 1\<close>, is the genesis round.
\<close>

theorem worker_init_never_synced:
  assumes "GetGenesisBlock env (RuntimeID env) = Inr genesisBlock"
    and "WatchPrunedBlocks env = None"
    and "Round (LastBlock synced) = defaultUndefinedRound \<or>
         Round (LastBlock synced) < hdr_Round (Header genesisBlock)"
  shows "\<exists>s. worker_init env synced = Some s \<and>
           undefinedRound s = hdr_Round (Header genesisBlock) - 1 \<and>
           cachedLastRound s = hdr_Round (Header genesisBlock) - 1 \<and>
           lastFullyAppliedRound s = hdr_Round (Header genesisBlock) - 1 \<and>
           startSummaryRound s = hdr_Round (Header genesisBlock) \<and>
           cachedLastRound s + 1 = hdr_Round (Header genesisBlock) \<and>
           Round (LastBlock (NewNode_syncedState None)) = defaultUndefinedRound"
  using assms
  by (auto simp: worker_init_def Let_def startSummaryRound_def NewNode_syncedState_def)

theorem worker_init_never_synced_witness:
  "(Round (LastBlock (exSynced 3)) = defaultUndefinedRound \<or>
    Round (LastBlock (exSynced 3)) < hdr_Round (Header (exBlock 5))) \<and>
   (\<exists>s. worker_init (exEnv 5) (exSynced 3) = Some s \<and>
        undefinedRound s = 4 \<and> cachedLastRound s = 4 \<and> lastFullyAppliedRound s = 4 \<and>
        startSummaryRound s = 5 \<and> cachedLastRound s + 1 = 5)"
proof -
  have g: "GetGenesisBlock (exEnv 5) (RuntimeID (exEnv 5)) = Inr (exBlock 5)"
    by (simp add: exEnv_def)
  have w: "WatchPrunedBlocks (exEnv 5) = None"
    by (simp add: exEnv_def)
  have c: "Round (LastBlock (exSynced 3)) = defaultUndefinedRound \<or>
           Round (LastBlock (exSynced 3)) < hdr_Round (Header (exBlock 5))"
    by (simp add: exSynced_def summaryFromBlock_def exBlock_def)
  have r: "hdr_Round (Header (exBlock 5)) = 5"
    by (simp add: exBlock_def)
  from worker_init_never_synced [OF g w c] c show ?thesis
    unfolding r by auto
qed

section \<open>The new-block handler\<close>



lemma scheduleMask_trace:
  "\<exists>ts. trace (scheduleMask i m task s) = trace s @ map SubmitFetch ts \<and>
        fetching (scheduleMask i m task s) = fetching s @ ts"
proof (cases "scheduleMask i m task s = s")
  case True
  then show ?thesis by (intro exI [of _ "[]"]) simp
next
  case False
  then show ?thesis
    by (intro exI [of _ "[task]"])
       (auto simp: scheduleMask_def submitFetch_def split: option.splits if_splits)
qed

lemma scheduleRound_trace:
  assumes "scheduleRound i s = Next s'"
  shows "\<exists>ts. trace s' = trace s @ map SubmitFetch ts \<and> fetching s' = fetching s @ ts"
proof (cases "s' = s")
  case True
  then show ?thesis by (intro exI [of _ "[]"]) simp
next
  case False
  with assms obtain s1 t1 t2 where
    g: "s' = scheduleMask i maskState t2 (scheduleMask i maskIO t1 s1)" and
    h: "trace s1 = trace s" "fetching s1 = fetching s"
    by (auto simp: scheduleRound_def Let_def split: if_splits option.splits)
  obtain ts1 where a: "trace (scheduleMask i maskIO t1 s1) = trace s1 @ map SubmitFetch ts1"
      "fetching (scheduleMask i maskIO t1 s1) = fetching s1 @ ts1"
    using scheduleMask_trace by blast
  obtain ts2 where b: "trace s' = trace (scheduleMask i maskIO t1 s1) @ map SubmitFetch ts2"
      "fetching s' = fetching (scheduleMask i maskIO t1 s1) @ ts2"
    unfolding g using scheduleMask_trace by blast
  show ?thesis by (intro exI [of _ "ts1 @ ts2"]) (simp add: a b h)
qed

lemma scheduleRounds_trace:
  "scheduleRounds i R s = Next s' \<Longrightarrow>
     \<exists>ts. trace s' = trace s @ map SubmitFetch ts \<and> fetching s' = fetching s @ ts"
proof (induction i R s rule: scheduleRounds.induct)
  case (1 i R s)
  show ?case
  proof (cases "i \<le> R")
    case False
    with "1.prems" have "s' = s" by (subst (asm) scheduleRounds.simps) simp
    then show ?thesis by (intro exI [of _ "[]"]) simp
  next
    case True
    with "1.prems" obtain s1 where
      a: "scheduleRound i s = Next s1" and b: "i + 1 \<noteq> 0" and
      c: "scheduleRounds (i + 1) R s1 = Next s'"
      by (subst (asm) scheduleRounds.simps) (auto split: outcome.splits if_splits)
    from scheduleRound_trace [OF a] obtain ts1 where
      d: "trace s1 = trace s @ map SubmitFetch ts1" "fetching s1 = fetching s @ ts1" by blast
    from "1.IH" [OF True a b c] obtain ts2 where
      e: "trace s' = trace s1 @ map SubmitFetch ts2" "fetching s' = fetching s1 @ ts2" by blast
    show ?thesis by (intro exI [of _ "ts1 @ ts2"]) (simp add: d e)
  qed
qed


lemma handleBlock_parts:
  assumes "handleBlock env blk s = Next s'"
  obtains s2 where
    "fetchSummaries env (startSummaryRound s) (hdr_Round (Header blk)) (installDummy blk s) = Some s2"
    "scheduleRounds (cachedLastRound s + 1) (hdr_Round (Header blk)) (cacheBlock blk s2) = Next s'"
proof -
  have st: "startSummaryRound (installDummy blk s) = startSummaryRound s"
    by (simp add: startSummaryRound_def installDummy_def)
  from assms obtain s2 where
    c: "fetchSummaries env (startSummaryRound s) (hdr_Round (Header blk))
          (installDummy blk s) = Some s2" and
    d: "scheduleRounds (cachedLastRound (cacheBlock blk s2) + 1) (hdr_Round (Header blk))
          (cacheBlock blk s2) = Next s'"
    by (auto simp: handleBlock_def Let_def st split: option.splits)
  from fetchSummaries_frame [OF c] obtain hc tr where
    "s2 = (installDummy blk s)\<lparr>hashCache := hc, trace := tr\<rparr>" by blast
  then have "cachedLastRound (cacheBlock blk s2) = cachedLastRound s"
    by (simp add: cacheBlock_def installDummy_def)
  with c d that show ?thesis by simp
qed


lemma stateOf_Some: "stateOf x = Some s \<longleftrightarrow> x = Next s"
  by (cases x) auto


section \<open>Applying a popped diff\<close>

text \<open>
  Claim C4. When the diff at the head of the diffs queue is for the round after the last
  fully applied one and is fetched, the pass pops it and calls \<open>Apply\<close> exactly once for
  it. Whether \<open>Apply\<close> succeeds or fails (a failure only adds an error log), the diff is
  gone from the queue, no task is submitted again, and the diff's mask is cleared from
  \<open>outstanding\<close>. If \<open>outstanding\<close> and \<open>awaitingRetry\<close> are then both empty, the round's
  entry is deleted, the cached summary of the round before is dropped, the round becomes
  the last fully applied one and its summary is pushed onto the applieds queue.
\<close>

theorem applyDiff_fetched:
  assumes "applyGuard s"
    and "d = outOfOrderDiffs s ! 0"
    and "d_fetched d"
    and "syncingRounds s (d_round d) = Some f"
    and "hashCache s (d_round d) = Some summary"
  shows "\<exists>s'. applyDiff env s = Next s' \<and>
     trace s' = trace s @
        [PopDiff d,
         CallApply (root_Namespace (d_thisRoot d))
           (root_Round (d_prevRoot d)) (root_Hash (d_prevRoot d))
           (root_Round (d_thisRoot d)) (root_Hash (d_thisRoot d)) (d_writeLog d)] @
        (if LocalApply env (trace s @ [PopDiff d]) (root_Namespace (d_thisRoot d))
              (root_Round (d_prevRoot d)) (root_Hash (d_prevRoot d))
              (root_Round (d_thisRoot d)) (root_Hash (d_thisRoot d)) (d_writeLog d) \<noteq> None
         then [LogError CantApplyWriteLog] else []) \<and>
     mset (outOfOrderDiffs s) = add_mset d (mset (outOfOrderDiffs s')) \<and>
     fetching s' = fetching s \<and>
     cachedLastRound s' = cachedLastRound s \<and>
     (if outstanding f AND NOT (d_fetchMask d) = maskNone \<and> awaitingRetry f = maskNone
      then syncingRounds s' = (syncingRounds s)(d_round d := None) \<and>
           hashCache s' = (hashCache s)(d_round d - 1 := None) \<and>
           lastFullyAppliedRound s' = d_round d \<and>
           mset (outOfOrderApplieds s') = add_mset summary (mset (outOfOrderApplieds s))
      else syncingRounds s' = (syncingRounds s)(d_round d \<mapsto>
               f\<lparr>outstanding := outstanding f AND NOT (d_fetchMask d)\<rparr>) \<and>
           hashCache s' = hashCache s \<and>
           lastFullyAppliedRound s' = lastFullyAppliedRound s \<and>
           outOfOrderApplieds s' = outOfOrderApplieds s)"
proof -
  from assms(1) have "outOfOrderDiffs s \<noteq> []" by (auto simp: applyGuard_def)
  then obtain x q where p: "heap_Pop d_round (outOfOrderDiffs s) = Some (x, q)"
    using heap_Pop_None [of d_round "outOfOrderDiffs s"] by (cases "heap_Pop d_round (outOfOrderDiffs s)") auto
  from heap_Pop_Some [OF p] assms(2) have x: "x = d" and m: "mset (outOfOrderDiffs s) = add_mset d (mset q)"
    by auto
  have r: "d_round d - 1 \<noteq> d_round d" by simp
  show ?thesis
    using assms(3-5) m r
    by (simp add: applyDiff_def p x applyWriteLog_def roundSynced_def Let_def mset_heap_Push)
qed

theorem applyDiff_fetched_witness:
  "applyGuard exQueued \<and>
   d_fetched (outOfOrderDiffs exQueued ! 0) \<and> d_round (outOfOrderDiffs exQueued ! 0) = 0 \<and>
   syncingRounds exQueued 0 = Some \<lparr>outstanding = maskIO, awaitingRetry = maskNone\<rparr> \<and>
   (\<exists>s'. applyDiff (exEnvFailing 0) exQueued = Next s' \<and>
      trace s' = trace exQueued @
        [PopDiff (outOfOrderDiffs exQueued ! 0),
         CallApply 7 0 EmptyHash 0 (Digest 1) [(1, 2), (3, 4)],
         LogError CantApplyWriteLog] \<and>
      fetching s' = fetching exQueued \<and>
      syncingRounds s' = (syncingRounds exQueued)(0 := None) \<and>
      hashCache s' = (hashCache exQueued)(- 1 := None) \<and>
      lastFullyAppliedRound s' = 0 \<and>
      mset (outOfOrderApplieds s') = {#summaryFromBlock (exBlock 0)#})"
proof -
  let ?d = "outOfOrderDiffs exQueued ! 0"
  have g: "applyGuard exQueued" by code_simp
  have f: "d_fetched ?d" by code_simp
  have r: "d_round ?d = 0" by code_simp
  have sr: "syncingRounds exQueued (d_round ?d) = Some \<lparr>outstanding = maskIO, awaitingRetry = maskNone\<rparr>"
    by code_simp
  have hc: "hashCache exQueued (d_round ?d) = Some (summaryFromBlock (exBlock 0))" by code_simp
  have v: "root_Namespace (d_thisRoot ?d) = 7" "root_Round (d_prevRoot ?d) = 0"
    "root_Hash (d_prevRoot ?d) = EmptyHash" "root_Round (d_thisRoot ?d) = 0"
    "root_Hash (d_thisRoot ?d) = Digest 1" "d_writeLog ?d = [(1, 2), (3, 4)]"
    "d_fetchMask ?d = maskIO" "outOfOrderApplieds exQueued = []"
    by code_simp+
  have e: "LocalApply (exEnvFailing 0) tr ns r1 h1 r2 h2 wl = Some (ErrOther 3)" for tr ns r1 h1 r2 h2 wl
    by (simp add: exEnvFailing_def)
  from applyDiff_fetched [OF g refl f sr hc, of "exEnvFailing 0"]
  show ?thesis
    using g f r sr by (simp add: v e r maskNone_def maskIO_def) blast
qed

section \<open>A block delivered twice\<close>

lemma applyDiff_rounds:
  "applyDiff env s = Next s' \<Longrightarrow>
     cachedLastRound s' = cachedLastRound s \<and> undefinedRound s' = undefinedRound s"
  by (auto simp: applyDiff_def roundSynced_def applyWriteLog_def Let_def
           split: option.splits if_splits)

lemma spawnFinalize_rounds:
  "spawnFinalize s = Next s' \<Longrightarrow>
     cachedLastRound s' = cachedLastRound s \<and> undefinedRound s' = undefinedRound s"
  by (auto simp: spawnFinalize_def split: option.splits)

lemma fetchSummaries_done: "\<not> i < R \<Longrightarrow> fetchSummaries env i R s = Some s"
  by (subst fetchSummaries.simps) simp

lemma scheduleRounds_done: "\<not> i \<le> R \<Longrightarrow> scheduleRounds i R s = Next s"
  by (subst scheduleRounds.simps) simp

lemma handleBlock_duplicate:
  assumes "cachedLastRound s = hdr_Round (Header blk)" and "hdr_Round (Header blk) \<noteq> - 1"
  shows "\<exists>hc. handleBlock env blk s = Next (s\<lparr>hashCache := hc\<rparr>) \<and>
              (\<forall>k. k \<noteq> hdr_Round (Header blk) \<longrightarrow> hc k = hashCache s k) \<and>
              (hashCache s (hdr_Round (Header blk)) \<noteq> None \<longrightarrow> hc = hashCache s)"
proof -
  define R where "R = hdr_Round (Header blk)"
  have "R + 1 \<noteq> 0"
    using assms(2) by (simp add: R_def eq_neg_iff_add_eq_0)
  then have "\<not> R + 1 < R" "\<not> R + 1 \<le> R"
    by unat_arith+
  then have w: "\<not> R + 1 < R" "\<not> R + 1 \<le> R" "\<not> R < R"
    by simp_all
  have "startSummaryRound (installDummy blk s) = R \<or> startSummaryRound (installDummy blk s) = R + 1"
    using assms(1) by (simp add: startSummaryRound_def installDummy_def Let_def R_def)
  with w have st: "\<not> startSummaryRound (installDummy blk s) < R"
    by auto
  have cl: "cachedLastRound (cacheBlock blk (installDummy blk s)) = R"
    using assms(1) by (simp add: cacheBlock_def installDummy_def R_def)
  have hb: "handleBlock env blk s = Next (cacheBlock blk (installDummy blk s))"
    using w(2) by (simp add: handleBlock_def Let_def fetchSummaries_done [OF st [unfolded R_def]]
        scheduleRounds_done cl [unfolded R_def] R_def)
  show ?thesis
    unfolding hb using assms(1)
    by (intro exI [of _ "hashCache (cacheBlock blk (installDummy blk s))"])
       (auto simp: cacheBlock_def installDummy_def)
qed

lemma guards_hashCache [simp]:
  "applyGuard (s\<lparr>hashCache := hc\<rparr>) = applyGuard s"
  "finalizeGuard (s\<lparr>hashCache := hc\<rparr>) = finalizeGuard s"
  by (simp_all add: applyGuard_def finalizeGuard_def)

lemma run_duplicate_aux:
  "run env s evs = Next t \<Longrightarrow> evs = [] \<Longrightarrow>
   cachedLastRound s = hdr_Round (Header blk) \<Longrightarrow> hdr_Round (Header blk) \<noteq> - 1 \<Longrightarrow>
   \<exists>hc. run env s [EvBlock blk] = Next (t\<lparr>hashCache := hc\<rparr>) \<and>
        (\<forall>k. k \<noteq> hdr_Round (Header blk) \<longrightarrow> hc k = hashCache t k) \<and>
        (hashCache t (hdr_Round (Header blk)) \<noteq> None \<longrightarrow> hc = hashCache t)"
proof (induction env s evs rule: run.induct)
  case (1 env s evs)
  show ?case
  proof (cases "applyGuard s")
    case True
    with "1.prems"(1) obtain s1 where a: "applyDiff env s = Next s1" and r: "run env s1 evs = Next t"
      by (subst (asm) run.simps) (auto split: outcome.splits)
    from "1.IH"(1) [OF True a r "1.prems"(2)] applyDiff_rounds [OF a] "1.prems"(3,4)
    obtain hc where "run env s1 [EvBlock blk] = Next (t\<lparr>hashCache := hc\<rparr>)"
      "\<forall>k. k \<noteq> hdr_Round (Header blk) \<longrightarrow> hc k = hashCache t k"
      "hashCache t (hdr_Round (Header blk)) \<noteq> None \<longrightarrow> hc = hashCache t" by auto
    then show ?thesis using True a by (subst run.simps) auto
  next
    case False
    note ng = this
    show ?thesis
    proof (cases "finalizeGuard s")
      case True
      with ng "1.prems"(1) obtain s1 where a: "spawnFinalize s = Next s1" and r: "run env s1 evs = Next t"
        by (subst (asm) run.simps) (auto split: outcome.splits)
      from "1.IH"(2) [OF ng True a r "1.prems"(2)] spawnFinalize_rounds [OF a] "1.prems"(3,4)
      obtain hc where "run env s1 [EvBlock blk] = Next (t\<lparr>hashCache := hc\<rparr>)"
        "\<forall>k. k \<noteq> hdr_Round (Header blk) \<longrightarrow> hc k = hashCache t k"
        "hashCache t (hdr_Round (Header blk)) \<noteq> None \<longrightarrow> hc = hashCache t" by auto
      then show ?thesis using True ng a by (subst run.simps) auto
    next
      case False
      with ng "1.prems"(1,2) have ts: "t = s" by (subst (asm) run.simps) simp
      from handleBlock_duplicate [OF "1.prems"(3,4), of env] obtain hc where
        h: "handleBlock env blk s = Next (s\<lparr>hashCache := hc\<rparr>)"
        "\<forall>k. k \<noteq> hdr_Round (Header blk) \<longrightarrow> hc k = hashCache s k"
        "hashCache s (hdr_Round (Header blk)) \<noteq> None \<longrightarrow> hc = hashCache s" by blast
      have "run env (s\<lparr>hashCache := hc\<rparr>) [] = Next (s\<lparr>hashCache := hc\<rparr>)"
        using ng False by (subst run.simps) simp
      then have "run env s [EvBlock blk] = Next (s\<lparr>hashCache := hc\<rparr>)"
        using ng False h(1) by (subst run.simps) (simp add: selectEvent_def)
      with h ts show ?thesis by blast
    qed
  qed
qed

text \<open>
  Let the round of a block be the last finalized round (\<open>cachedLastRound\<close>): the block
  has been fetched and applied, and the completion of its finalize has been received.
  Delivering the block again then changes nothing but, at most, the cached summary of
  that round: the run with the block delivered ends in the state of the run without it,
  up to that cache entry, with the same trace.
\<close>

lemma duplicate_block_finalized:
  assumes "run env s [] = Next t"
    and "cachedLastRound s = hdr_Round (Header blk)"
    and "hdr_Round (Header blk) \<noteq> - 1"
  shows "\<exists>hc. run env s [EvBlock blk] = Next (t\<lparr>hashCache := hc\<rparr>) \<and>
           (\<forall>k. k \<noteq> hdr_Round (Header blk) \<longrightarrow> hc k = hashCache t k) \<and>
           (hashCache t (hdr_Round (Header blk)) \<noteq> None \<longrightarrow> hc = hashCache t) \<and>
           applyCalls (trace (t\<lparr>hashCache := hc\<rparr>)) = applyCalls (trace t) \<and>
           finalizeCalls (trace (t\<lparr>hashCache := hc\<rparr>)) = finalizeCalls (trace t)"
  using run_duplicate_aux [OF assms(1) refl assms(2,3)] by auto

section \<open>Reachable states\<close>

text \<open>
  A property holds in every reachable state if it holds when the main loop starts and
  each of the three kinds of pass keeps it.
\<close>

lemma reachable_invariant [consumes 1, case_names init drain_apply drain_finalize select]:
  assumes "reachable env s"
    and "\<And>synced s. worker_init env synced = Some s \<Longrightarrow> P s"
    and "\<And>s s'. reachable env s \<Longrightarrow> P s \<Longrightarrow> applyGuard s \<Longrightarrow> applyDiff env s = Next s' \<Longrightarrow> P s'"
    and "\<And>s s'. reachable env s \<Longrightarrow> P s \<Longrightarrow> \<not> applyGuard s \<Longrightarrow> finalizeGuard s \<Longrightarrow>
            spawnFinalize s = Next s' \<Longrightarrow> P s'"
    and "\<And>s ev s'. reachable env s \<Longrightarrow> P s \<Longrightarrow> validEvent s ev \<Longrightarrow>
            selectEvent env s ev = Next s' \<Longrightarrow> P s'"
  shows "P s"
  using assms(1)
proof (induction rule: reachable.induct)
  case (reach_init synced s)
  then show ?case by (rule assms(2))
next
  case (reach_iter s ev s')
  then show ?case
    using assms(3) [of s s'] assms(4) [of s s'] assms(5) [of s ev s']
    by (auto simp: mainLoop_iter_def split: if_splits)
qed

lemma fetchDiff_fields:
  "sent (fetchDiff fe rnd prevRoot thisRoot m) = [d] \<Longrightarrow>
     d_round d = rnd \<and> d_prevRoot d = prevRoot \<and> d_thisRoot d = thisRoot \<and> d_fetchMask d = m"
  by (auto simp: fetchDiff_def fetchDiff_body_def Let_def consume_streamed split: sum.splits if_splits)

lemma fetchDiff_sent: "\<exists>d. sent (fetchDiff fe rnd prevRoot thisRoot m) = [d]"
  by (simp add: fetchDiff_def split: prod.splits)

lemma selectEvent_cases [consumes 1, case_names pruned block diff finalized]:
  assumes "selectEvent env s ev = Next s'"
  obtains
    (pruned) prunedBlk where "ev = EvPruned prunedBlk" "handlePruned env prunedBlk s = Next s'"
  | (block) blk where "ev = EvBlock blk" "handleBlock env blk s = Next s'"
  | (diff) n fe task item where "ev = EvDiff n fe" "task \<in> set (fetching s)"
      "d_round item = t_round task" "d_fetchMask item = t_fetchMask task"
      "d_thisRoot item = t_thisRoot task"
      "handleDiff item (s\<lparr>fetching := remove1 task (fetching s)\<rparr>) = Next s'"
  | (finalized) n summary where "ev = EvFinalized n" "summary \<in> set (finalizing s)"
      "handleFinalized env summary (s\<lparr>finalizing := remove1 summary (finalizing s)\<rparr>) = Next s'"
proof (cases ev)
  case (EvPruned pb)
  with assms pruned show ?thesis by (simp add: selectEvent_def)
next
  case (EvBlock blk)
  with assms block show ?thesis by (simp add: selectEvent_def)
next
  case (EvDiff n fe)
  with assms have n: "n < length (fetching s)"
    by (auto simp: selectEvent_def split: if_splits)
  define task where "task = fetching s ! n"
  from assms EvDiff n obtain p where p: "t_prevRoot task = Some p"
    by (auto simp: selectEvent_def Let_def runFetch_def task_def split: option.splits)
  obtain item where i: "sent (fetchDiff fe (t_round task) p (t_thisRoot task) (t_fetchMask task)) = [item]"
    using fetchDiff_sent by blast
  from assms EvDiff n p i have
    "handleDiff item (s\<lparr>fetching := remove1 task (fetching s)\<rparr>) = Next s'"
    by (simp add: selectEvent_def Let_def runFetch_def task_def)
  moreover have "task \<in> set (fetching s)" using n by (simp add: task_def)
  ultimately show ?thesis using diff [OF EvDiff] fetchDiff_fields [OF i] by blast
next
  case (EvFinalized n)
  with assms have n: "n < length (finalizing s)"
    by (auto simp: selectEvent_def split: if_splits)
  with assms EvFinalized have
    "handleFinalized env (finalizing s ! n)
       (s\<lparr>finalizing := remove1 (finalizing s ! n) (finalizing s)\<rparr>) = Next s'"
    by (simp add: selectEvent_def Let_def finalize_def)
  moreover have "finalizing s ! n \<in> set (finalizing s)" using n by simp
  ultimately show ?thesis using finalized [OF EvFinalized] by blast
next
  case EvDone
  with assms show ?thesis by (simp add: selectEvent_def)
qed

lemma selectEvent_rounds:
  assumes "selectEvent env s ev = Next s'"
  shows "undefinedRound s' = undefinedRound s"
  using assms
proof (cases rule: selectEvent_cases)
  case (pruned prunedBlk)
  then show ?thesis by (auto simp: handlePruned_def Let_def split: if_splits)
next
  case (block blk)
  from handleBlock_frame [OF block(2)] show ?thesis by auto
next
  case (diff n fe task item)
  then show ?thesis by (auto simp: handleDiff_def Let_def split: if_splits option.splits)
next
  case (finalized n summary)
  then show ?thesis by (auto simp: handleFinalized_def Let_def split: if_splits)
qed

lemma validEvent_cong: "undefinedRound s' = undefinedRound s \<Longrightarrow> validEvent s' ev = validEvent s ev"
  by (cases ev) (simp_all add: validBlock_def)

lemma run_reachable:
  "run env s evs = Next s' \<Longrightarrow> reachable env s \<Longrightarrow> \<forall>ev\<in>set evs. validEvent s ev \<Longrightarrow>
     reachable env s'"
proof (induction env s evs rule: run.induct)
  case (1 env s evs)
  show ?case
  proof (cases "applyGuard s")
    case True
    with "1.prems"(1) obtain s1 where a: "applyDiff env s = Next s1" and r: "run env s1 evs = Next s'"
      by (subst (asm) run.simps) (auto split: outcome.splits)
    have m: "mainLoop_iter env s EvDone = Next s1" using True a by (simp add: mainLoop_iter_def)
    have "reachable env s1" by (rule reach_iter [OF "1.prems"(2) _ m]) simp
    moreover have "\<forall>ev\<in>set evs. validEvent s1 ev"
      using "1.prems"(3) validEvent_cong [of s1 s] applyDiff_rounds [OF a] by simp
    ultimately show ?thesis using "1.IH"(1) [OF True a r] by blast
  next
    case False
    note ng = this
    show ?thesis
    proof (cases "finalizeGuard s")
      case True
      with ng "1.prems"(1) obtain s1 where a: "spawnFinalize s = Next s1" and r: "run env s1 evs = Next s'"
        by (subst (asm) run.simps) (auto split: outcome.splits)
      have m: "mainLoop_iter env s EvDone = Next s1" using True ng a by (simp add: mainLoop_iter_def)
      have "reachable env s1" by (rule reach_iter [OF "1.prems"(2) _ m]) simp
      moreover have "\<forall>ev\<in>set evs. validEvent s1 ev"
        using "1.prems"(3) validEvent_cong [of s1 s] spawnFinalize_rounds [OF a] by simp
      ultimately show ?thesis using "1.IH"(2) [OF ng True a r] by blast
    next
      case False
      show ?thesis
      proof (cases evs)
        case Nil
        with ng False "1.prems"(1) have "s' = s" by (subst (asm) run.simps) simp
        with "1.prems"(2) show ?thesis by simp
      next
        case (Cons ev evs1)
        with ng False "1.prems"(1) obtain s1 where a: "selectEvent env s ev = Next s1"
          and r: "run env s1 evs1 = Next s'"
          by (subst (asm) run.simps) (auto split: outcome.splits)
        have m: "mainLoop_iter env s ev = Next s1" using False ng a by (simp add: mainLoop_iter_def)
        have "validEvent s ev" using "1.prems"(3) Cons by simp
        then have "reachable env s1" by (rule reach_iter [OF "1.prems"(2) _ m])
        moreover have "\<forall>ev\<in>set evs1. validEvent s1 ev"
          using "1.prems"(3) Cons validEvent_cong [of s1 s] selectEvent_rounds [OF a] by simp
        ultimately show ?thesis using "1.IH"(3) [OF ng False Cons a r] by blast
      qed
    qed
  qed
qed

lemma exState_reachable:
  assumes "exRun g stored evs \<noteq> None"
    and "\<forall>ev\<in>set evs. validEvent (exState g stored []) ev"
  shows "reachable (exEnv g) (exState g stored evs)"
proof -
  from assms(1) obtain s0 where
    i: "worker_init (exEnv g) (NewNode_syncedState stored) = Some s0"
    by (auto simp: exRun_def split: option.splits)
  with assms(1) obtain s where r: "run (exEnv g) s0 evs = Next s"
    by (auto simp: exRun_def stateOf_Some split: option.splits)
  have g0: "\<not> applyGuard s0" "\<not> finalizeGuard s0"
    using i by (auto simp: worker_init_def Let_def applyGuard_def finalizeGuard_def
                      split: sum.splits option.splits)
  then have "run (exEnv g) s0 [] = Next s0" by (subst run.simps) simp
  then have e0: "exState g stored [] = s0" by (simp add: exState_def exRun_def i)
  have e: "exState g stored evs = s" by (simp add: exState_def exRun_def i r)
  have "reachable (exEnv g) s0" using i by (rule reach_init)
  with run_reachable [OF r] assms(2) show ?thesis by (simp add: e e0)
qed

section \<open>The round tracker\<close>

lemma and_clear: "(a::outstandingMask) AND b = 0 \<Longrightarrow> (a AND NOT m) AND b = 0"
  by (auto simp: bit_eq_iff bit_and_iff bit_not_iff)

lemma and_move_out: "(a::outstandingMask) AND b = 0 \<Longrightarrow> (a OR m) AND (b AND NOT m) = 0"
  by (auto simp: bit_eq_iff bit_and_iff bit_or_iff bit_not_iff)

lemma and_move_back: "(a::outstandingMask) AND b = 0 \<Longrightarrow> (a AND NOT m) AND (b OR m) = 0"
  by (auto simp: bit_eq_iff bit_and_iff bit_or_iff bit_not_iff)

lemma disjointMasks_upd:
  "disjointMasks sr \<Longrightarrow> outstanding f AND awaitingRetry f = 0 \<Longrightarrow> disjointMasks (sr(r \<mapsto> f))"
  by (simp add: disjointMasks_def)

lemma disjointMasks_del: "disjointMasks sr \<Longrightarrow> disjointMasks (sr(r := None))"
  by (simp add: disjointMasks_def)

lemma disjointMasks_get: "disjointMasks sr \<Longrightarrow> sr r = Some f \<Longrightarrow> outstanding f AND awaitingRetry f = 0"
  by (simp add: disjointMasks_def)

lemma roundSynced_disjoint:
  "roundSynced d s = Next s' \<Longrightarrow> disjointMasks (syncingRounds s) \<Longrightarrow> disjointMasks (syncingRounds s')"
  by (fastforce simp: roundSynced_def Let_def disjointMasks_def split: option.splits if_splits
           intro: and_clear)

lemma applyDiff_disjoint:
  "applyDiff env s = Next s' \<Longrightarrow> disjointMasks (syncingRounds s) \<Longrightarrow> disjointMasks (syncingRounds s')"
  by (auto simp: applyDiff_def applyWriteLog_def Let_def split: option.splits
           dest!: roundSynced_disjoint)

lemma scheduleMask_disjoint:
  "disjointMasks (syncingRounds s) \<Longrightarrow> disjointMasks (syncingRounds (scheduleMask i m t s))"
  by (fastforce simp: scheduleMask_def submitFetch_def disjointMasks_def split: option.splits
           intro: and_move_out)

lemma scheduleRound_disjoint:
  assumes "scheduleRound i s = Next s'" and "disjointMasks (syncingRounds s)"
  shows "disjointMasks (syncingRounds s')"
proof -
  define s1 where "s1 = (if syncingRounds s i = None
                  then s\<lparr>syncingRounds := (syncingRounds s)(i \<mapsto>
                           \<lparr> outstanding = maskNone, awaitingRetry = maskAll \<rparr>)\<rparr>
                  else s)"
  have d1: "disjointMasks (syncingRounds s1)"
    using assms(2) by (auto simp: s1_def disjointMasks_def maskNone_def)
  from assms(1) have "s' = s \<or> (\<exists>t1 t2. s' = scheduleMask i maskState t2 (scheduleMask i maskIO t1 s1))"
    by (auto simp: scheduleRound_def Let_def s1_def split: if_splits option.splits)
  with d1 assms(2) show ?thesis
    by (auto intro!: scheduleMask_disjoint)
qed

lemma scheduleRounds_disjoint:
  "scheduleRounds i R s = Next s' \<Longrightarrow> disjointMasks (syncingRounds s) \<Longrightarrow> disjointMasks (syncingRounds s')"
proof (induction i R s rule: scheduleRounds.induct)
  case (1 i R s)
  show ?case
  proof (cases "i \<le> R")
    case False
    with "1.prems"(1) have "s' = s" by (subst (asm) scheduleRounds.simps) simp
    with "1.prems"(2) show ?thesis by simp
  next
    case True
    with "1.prems"(1) obtain s1 where
      a: "scheduleRound i s = Next s1" and b: "i + 1 \<noteq> 0" and
      c: "scheduleRounds (i + 1) R s1 = Next s'"
      by (subst (asm) scheduleRounds.simps) (auto split: outcome.splits if_splits)
    from "1.IH" [OF True a b c] scheduleRound_disjoint [OF a "1.prems"(2)] show ?thesis .
  qed
qed

lemma handleBlock_disjoint:
  assumes "handleBlock env blk s = Next s'" and "disjointMasks (syncingRounds s)"
  shows "disjointMasks (syncingRounds s')"
proof -
  from assms(1) obtain s2 where
    a: "fetchSummaries env (startSummaryRound s) (hdr_Round (Header blk)) (installDummy blk s) = Some s2" and
    b: "scheduleRounds (cachedLastRound s + 1) (hdr_Round (Header blk)) (cacheBlock blk s2) = Next s'"
    by (rule handleBlock_parts)
  from fetchSummaries_frame [OF a] have "syncingRounds (cacheBlock blk s2) = syncingRounds s"
    by (auto simp: cacheBlock_def installDummy_def)
  with scheduleRounds_disjoint [OF b] assms(2) show ?thesis by simp
qed

lemma handleDiff_disjoint:
  "handleDiff item s = Next s' \<Longrightarrow> disjointMasks (syncingRounds s) \<Longrightarrow> disjointMasks (syncingRounds s')"
  by (fastforce simp: handleDiff_def Let_def disjointMasks_def split: option.splits if_splits
           intro: and_move_back)

text \<open>
  Claim C9. In every reachable state and for every entry of \<open>syncingRounds\<close>, no bit is
  set in both \<open>outstanding\<close> and \<open>awaitingRetry\<close>. (Entries start as
  \<open>(maskNone, maskAll)\<close>; scheduling moves a bit from \<open>awaitingRetry\<close> to
  \<open>outstanding\<close>, a popped diff clears its bit from \<open>outstanding\<close>, a failed fetch moves
  its bit back to \<open>awaitingRetry\<close>.)
\<close>

theorem masks_disjoint:
  assumes "reachable env s" and "syncingRounds s r = Some f"
  shows "outstanding f AND awaitingRetry f = 0"
proof -
  from assms(1) have "disjointMasks (syncingRounds s)"
  proof (induction s rule: reachable_invariant)
    case (init synced s)
    then show ?case
      by (auto simp: worker_init_def Let_def disjointMasks_def split: sum.splits option.splits)
  next
    case (drain_apply s s')
    then show ?case by (auto dest: applyDiff_disjoint)
  next
    case (drain_finalize s s')
    then show ?case by (auto simp: spawnFinalize_def split: option.splits)
  next
    case (select s ev s')
    from select.hyps(3) show ?case
    proof (cases rule: selectEvent_cases)
      case (pruned prunedBlk)
      with select.IH show ?thesis by (auto simp: handlePruned_def Let_def split: if_splits)
    next
      case (block blk)
      with select.IH show ?thesis by (auto dest: handleBlock_disjoint)
    next
      case (diff n fe task item)
      from handleDiff_disjoint [OF diff(6)] select.IH show ?thesis by simp
    next
      case (finalized n summary)
      with select.IH show ?thesis by (auto simp: handleFinalized_def Let_def split: if_splits)
    qed
  qed
  then show ?thesis using assms(2) by (rule disjointMasks_get)
qed

theorem masks_disjoint_witness:
  "reachable (exEnv 0) (exState 0 None [EvBlock (exBlock 0), EvDiff 0 exFetchFail]) \<and>
   syncingRounds (exState 0 None [EvBlock (exBlock 0), EvDiff 0 exFetchFail]) 0 =
     Some \<lparr>outstanding = maskState, awaitingRetry = maskIO\<rparr> \<and>
   maskState AND maskIO = 0"
proof -
  let ?evs = "[EvBlock (exBlock 0), EvDiff 0 exFetchFail]"
  have "exRun 0 None ?evs \<noteq> None" by code_simp
  moreover have "\<forall>ev\<in>set ?evs. validEvent (exState 0 None []) ev" by code_simp
  ultimately have r: "reachable (exEnv 0) (exState 0 None ?evs)" by (rule exState_reachable)
  have s: "syncingRounds (exState 0 None ?evs) 0 = Some \<lparr>outstanding = maskState, awaitingRetry = maskIO\<rparr>"
    by code_simp
  from masks_disjoint [OF r s] r s show ?thesis by simp
qed

section \<open>The order of applies\<close>

lemma popped_append: "popped (a @ b) = popped a @ popped b"
  by (induction a rule: popped.induct) simp_all

lemma applied_append: "applied (a @ b) = applied a @ applied b"
  by (induction a rule: applied.induct) simp_all

lemma popped_map [simp]:
  "popped (map CallGetBlock rs) = []" "popped (map SubmitFetch ts) = []"
  by (induction rs, simp_all) (induction ts, simp_all)

lemma applied_map [simp]:
  "applied (map CallGetBlock rs) = []" "applied (map SubmitFetch ts) = []"
  by (induction rs, simp_all) (induction ts, simp_all)

lemma fetchSummaries_trace:
  "fetchSummaries env i R s = Some s' \<Longrightarrow>
     \<exists>rs. trace s' = trace s @ map CallGetBlock rs \<and> sorted_wrt (<) rs \<and>
          (\<forall>r\<in>set rs. i \<le> r \<and> r < R)"
proof (induction env i R s rule: fetchSummaries.induct)
  case (1 env i R s)
  show ?case
  proof (cases "i < R")
    case False
    with "1.prems" have "s' = s" by (subst (asm) fetchSummaries.simps) simp
    then show ?thesis by (intro exI [of _ "[]"]) simp
  next
    case True
    then have i1: "i \<le> i + 1" "i < i + 1" by unat_arith+
    show ?thesis
    proof (cases "hashCache s i")
      case (Some sm)
      with True "1.prems" have "fetchSummaries env (i + 1) R s = Some s'"
        by (subst (asm) fetchSummaries.simps) simp
      with "1.IH"(1) True Some obtain rs where
        "trace s' = trace s @ map CallGetBlock rs" "sorted_wrt (<) rs"
        "\<forall>r\<in>set rs. i + 1 \<le> r \<and> r < R" by auto
      with i1 show ?thesis by (intro exI [of _ rs]) auto
    next
      case None
      with True "1.prems" obtain oldBlock where
        ob: "GetBlock env (RuntimeID env) i = Inr oldBlock" and
        rec: "fetchSummaries env (i + 1) R
                (s\<lparr>trace := trace s @ [CallGetBlock i],
                   hashCache := (hashCache s)(i \<mapsto> summaryFromBlock oldBlock)\<rparr>) = Some s'"
        by (subst (asm) fetchSummaries.simps) (auto simp: Let_def split: sum.splits)
      from "1.IH"(2) [OF True _ refl ob] None rec
      obtain rs where
        "trace s' = (trace s @ [CallGetBlock i]) @ map CallGetBlock rs" "sorted_wrt (<) rs"
        "\<forall>r\<in>set rs. i + 1 \<le> r \<and> r < R" by auto
      with i1 True show ?thesis
        by (intro exI [of _ "i # rs"]) auto
    qed
  qed
qed

lemma handleBlock_trace:
  assumes "handleBlock env blk s = Next s'"
  shows "\<exists>rs ts. trace s' = trace s @ map CallGetBlock rs @ map SubmitFetch ts \<and>
                 fetching s' = fetching s @ ts \<and> sorted_wrt (<) rs \<and>
                 (\<forall>r\<in>set rs. startSummaryRound s \<le> r \<and> r < hdr_Round (Header blk))"
proof -
  from assms obtain s2 where
    a: "fetchSummaries env (startSummaryRound s) (hdr_Round (Header blk)) (installDummy blk s) = Some s2" and
    b: "scheduleRounds (cachedLastRound s + 1) (hdr_Round (Header blk)) (cacheBlock blk s2) = Next s'"
    by (rule handleBlock_parts)
  from fetchSummaries_trace [OF a] obtain rs where
    c: "trace s2 = trace (installDummy blk s) @ map CallGetBlock rs" "sorted_wrt (<) rs"
      "\<forall>r\<in>set rs. startSummaryRound s \<le> r \<and> r < hdr_Round (Header blk)" by blast
  from fetchSummaries_frame [OF a] have f: "fetching s2 = fetching s"
    by (auto simp: installDummy_def)
  from scheduleRounds_trace [OF b] obtain ts where
    d: "trace s' = trace (cacheBlock blk s2) @ map SubmitFetch ts"
       "fetching s' = fetching (cacheBlock blk s2) @ ts" by blast
  have "trace s' = trace s @ map CallGetBlock rs @ map SubmitFetch ts" "fetching s' = fetching s @ ts"
    using c(1) d f by (simp_all add: cacheBlock_def installDummy_def)
  with c(2,3) show ?thesis by blast
qed

text \<open>What a pass other than the apply drain leaves alone.\<close>

lemma spawnFinalize_pops:
  "spawnFinalize s = Next s' \<Longrightarrow>
     popped (trace s') = popped (trace s) \<and> applied (trace s') = applied (trace s) \<and>
     lastFullyAppliedRound s' = lastFullyAppliedRound s"
  by (auto simp: spawnFinalize_def popped_append applied_append split: option.splits)

lemma selectEvent_pops:
  assumes "selectEvent env s ev = Next s'"
  shows "popped (trace s') = popped (trace s) \<and> applied (trace s') = applied (trace s) \<and>
         lastFullyAppliedRound s' = lastFullyAppliedRound s"
  using assms
proof (cases rule: selectEvent_cases)
  case (pruned prunedBlk)
  then show ?thesis
    by (auto simp: handlePruned_def Let_def popped_append applied_append split: if_splits)
next
  case (block blk)
  from handleBlock_trace [OF block(2)] handleBlock_frame [OF block(2)] show ?thesis
    by (auto simp: popped_append applied_append)
next
  case (diff n fe task item)
  then show ?thesis
    by (auto simp: handleDiff_def Let_def popped_append applied_append split: if_splits option.splits)
next
  case (finalized n summary)
  then show ?thesis
    by (auto simp: handleFinalized_def Let_def popped_append applied_append split: if_splits)
qed

lemma applyDiff_pops:
  assumes "applyDiff env s = Next s'"
  shows "popped (trace s') = popped (trace s) @ [outOfOrderDiffs s ! 0] \<and>
         applied (trace s') = applied (trace s) @
           (if d_fetched (outOfOrderDiffs s ! 0)
            then [root_Round (d_thisRoot (outOfOrderDiffs s ! 0))] else []) \<and>
         (lastFullyAppliedRound s' = lastFullyAppliedRound s \<or>
          lastFullyAppliedRound s' = d_round (outOfOrderDiffs s ! 0)) \<and>
         outOfOrderDiffs s ! 0 \<in> set (outOfOrderDiffs s)"
proof -
  from assms obtain x q where p: "heap_Pop d_round (outOfOrderDiffs s) = Some (x, q)"
    by (auto simp: applyDiff_def split: option.splits)
  from heap_Pop_Some [OF p] heap_Pop_set [OF p]
  have x: "x = outOfOrderDiffs s ! 0" "x \<in> set (outOfOrderDiffs s)" by auto
  from assms p x show ?thesis
    by (auto simp: applyDiff_def roundSynced_def applyWriteLog_def Let_def popped_append applied_append
             split: option.splits if_splits)
qed

text \<open>The roots keep their rounds.\<close>

lemma wfSummary_summaryFromBlock [simp]: "wfSummary (summaryFromBlock blk)"
  by (simp add: wfSummary_def summaryFromBlock_def)

lemma wfSummary_dummySummary [simp]: "wfSummary (dummySummary blk r)"
  by (simp add: wfSummary_def dummySummary_def)

lemma fetchSummaries_wfRoots:
  "fetchSummaries env i R s = Some s' \<Longrightarrow> wfRoots s \<Longrightarrow> wfRoots s'"
proof (induction env i R s rule: fetchSummaries.induct)
  case (1 env i R s)
  show ?case
  proof (cases "i < R")
    case False
    with "1.prems"(1) have "s' = s" by (subst (asm) fetchSummaries.simps) simp
    with "1.prems"(2) show ?thesis by simp
  next
    case True
    show ?thesis
    proof (cases "hashCache s i")
      case (Some sm)
      with True "1.prems"(1) have "fetchSummaries env (i + 1) R s = Some s'"
        by (subst (asm) fetchSummaries.simps) simp
      with "1.IH"(1) True Some "1.prems"(2) show ?thesis by simp
    next
      case None
      with True "1.prems"(1) obtain oldBlock where
        ob: "GetBlock env (RuntimeID env) i = Inr oldBlock" and
        rec: "fetchSummaries env (i + 1) R
                (s\<lparr>trace := trace s @ [CallGetBlock i],
                   hashCache := (hashCache s)(i \<mapsto> summaryFromBlock oldBlock)\<rparr>) = Some s'"
        by (subst (asm) fetchSummaries.simps) (auto simp: Let_def split: sum.splits)
      have "wfRoots (s\<lparr>trace := trace s @ [CallGetBlock i],
                   hashCache := (hashCache s)(i \<mapsto> summaryFromBlock oldBlock)\<rparr>)"
        using "1.prems"(2) by (auto simp: wfRoots_def)
      with "1.IH"(2) [OF True _ refl ob] None rec show ?thesis by simp
    qed
  qed
qed

lemma scheduleMask_wfRoots:
  "wfRoots s \<Longrightarrow> root_Round (t_thisRoot task) = t_round task \<Longrightarrow>
     wfRoots (scheduleMask i m task s)"
  by (auto simp: scheduleMask_def submitFetch_def wfRoots_def split: option.splits)

lemma scheduleRound_wfRoots:
  assumes "scheduleRound i s = Next s'" and "wfRoots s"
  shows "wfRoots s'"
proof (cases "s' = s")
  case True
  with assms(2) show ?thesis by simp
next
  case False
  define s1 where "s1 = (if syncingRounds s i = None
                  then s\<lparr>syncingRounds := (syncingRounds s)(i \<mapsto>
                           \<lparr> outstanding = maskNone, awaitingRetry = maskAll \<rparr>)\<rparr>
                  else s)"
  have w1: "wfRoots s1" "hashCache s1 = hashCache s"
    using assms(2) by (auto simp: s1_def wfRoots_def)
  from assms(1) False obtain this where
    t: "hashCache s1 i = Some this" and
    e: "s' = scheduleMask i maskState
               \<lparr> t_round = Round this, t_prevRoot = map_option StateRoot (hashCache s1 (i - 1)),
                 t_thisRoot = StateRoot this, t_fetchMask = maskState \<rparr>
               (scheduleMask i maskIO
                 \<lparr> t_round = Round this,
                   t_prevRoot = Some \<lparr> root_Namespace = root_Namespace (IORoot this),
                                        root_Round = root_Round (IORoot this),
                                        root_Hash = EmptyHash \<rparr>,
                   t_thisRoot = IORoot this, t_fetchMask = maskIO \<rparr> s1)"
    by (auto simp: scheduleRound_def Let_def s1_def split: if_splits option.splits)
  from t w1 have "wfSummary this" by (auto simp: wfRoots_def)
  then show ?thesis
    unfolding e using w1(1)
    by (intro scheduleMask_wfRoots) (simp_all add: wfSummary_def)
qed

lemma scheduleRounds_wfRoots:
  "scheduleRounds i R s = Next s' \<Longrightarrow> wfRoots s \<Longrightarrow> wfRoots s'"
proof (induction i R s rule: scheduleRounds.induct)
  case (1 i R s)
  show ?case
  proof (cases "i \<le> R")
    case False
    with "1.prems"(1) have "s' = s" by (subst (asm) scheduleRounds.simps) simp
    with "1.prems"(2) show ?thesis by simp
  next
    case True
    with "1.prems"(1) obtain s1 where
      a: "scheduleRound i s = Next s1" and b: "i + 1 \<noteq> 0" and
      c: "scheduleRounds (i + 1) R s1 = Next s'"
      by (subst (asm) scheduleRounds.simps) (auto split: outcome.splits if_splits)
    from "1.IH" [OF True a b c] scheduleRound_wfRoots [OF a "1.prems"(2)] show ?thesis .
  qed
qed

lemma handleBlock_wfRoots:
  assumes "handleBlock env blk s = Next s'" and "wfRoots s"
  shows "wfRoots s'"
proof -
  from assms(1) obtain s2 where
    a: "fetchSummaries env (startSummaryRound s) (hdr_Round (Header blk)) (installDummy blk s) = Some s2" and
    b: "scheduleRounds (cachedLastRound s + 1) (hdr_Round (Header blk)) (cacheBlock blk s2) = Next s'"
    by (rule handleBlock_parts)
  have "wfRoots (installDummy blk s)"
    using assms(2) by (auto simp: installDummy_def wfRoots_def)
  from fetchSummaries_wfRoots [OF a this] have "wfRoots (cacheBlock blk s2)"
    by (auto simp: cacheBlock_def wfRoots_def)
  with scheduleRounds_wfRoots [OF b] show ?thesis by simp
qed

lemma applyDiff_wfRoots:
  assumes "applyDiff env s = Next s'" and "wfRoots s"
  shows "wfRoots s'"
proof -
  from assms(1) obtain x q where p: "heap_Pop d_round (outOfOrderDiffs s) = Some (x, q)"
    by (auto simp: applyDiff_def split: option.splits)
  from heap_Pop_set [OF p] have "set q \<subseteq> set (outOfOrderDiffs s)" by auto
  with assms p show ?thesis
    by (auto simp: applyDiff_def roundSynced_def applyWriteLog_def Let_def wfRoots_def
             split: option.splits if_splits)
qed

lemma selectEvent_wfRoots:
  assumes "selectEvent env s ev = Next s'" and "wfRoots s"
  shows "wfRoots s'"
  using assms(1)
proof (cases rule: selectEvent_cases)
  case (pruned prunedBlk)
  with assms(2) show ?thesis by (auto simp: handlePruned_def Let_def wfRoots_def split: if_splits)
next
  case (block blk)
  with assms(2) show ?thesis by (auto dest: handleBlock_wfRoots)
next
  case (diff n fe task item)
  have "set (remove1 task (fetching s)) \<subseteq> set (fetching s)" by (rule set_remove1_subset)
  with diff assms(2) show ?thesis
    by (auto simp: handleDiff_def Let_def wfRoots_def set_heap_Push split: if_splits option.splits)
next
  case (finalized n summary)
  with assms(2) show ?thesis by (auto simp: handleFinalized_def Let_def wfRoots_def split: if_splits)
qed

lemma reachable_wfRoots: "reachable env s \<Longrightarrow> wfRoots s"
proof (induction s rule: reachable_invariant)
  case (init synced s)
  then show ?case
    by (auto simp: worker_init_def Let_def wfRoots_def split: sum.splits option.splits)
next
  case (drain_apply s s')
  then show ?case by (auto dest: applyDiff_wfRoots)
next
  case (drain_finalize s s')
  then show ?case by (auto simp: spawnFinalize_def wfRoots_def split: option.splits)
next
  case (select s ev s')
  then show ?case by (auto dest: selectEvent_wfRoots)
qed

text \<open>The order of the pops.\<close>

lemma popOrder_same:
  "popOrder s \<Longrightarrow> popped (trace s') = popped (trace s) \<and> applied (trace s') = applied (trace s) \<and>
     lastFullyAppliedRound s' = lastFullyAppliedRound s \<Longrightarrow> popOrder s'"
  by (simp add: popOrder_def)

lemma applyDiff_popOrder:
  assumes "applyDiff env s = Next s'" and "applyGuard s" and "wfRoots s" and "popOrder s"
  shows "popOrder s'"
proof -
  define d where "d = outOfOrderDiffs s ! 0"
  from applyDiff_pops [OF assms(1)] have
    p: "popped (trace s') = popped (trace s) @ [d]" and
    a: "applied (trace s') = applied (trace s) @ (if d_fetched d then [root_Round (d_thisRoot d)] else [])" and
    l: "lastFullyAppliedRound s' = lastFullyAppliedRound s \<or> lastFullyAppliedRound s' = d_round d" and
    m: "d \<in> set (outOfOrderDiffs s)"
    by (simp_all add: d_def)
  from assms(2) have g: "d_round d = lastFullyAppliedRound s + 1" by (simp add: applyGuard_def d_def)
  from assms(3) m have w: "root_Round (d_thisRoot d) = d_round d" by (auto simp: wfRoots_def)
  from assms(4) have
    o1: "successively (\<lambda>a b. b = a \<or> b = a + 1) (map d_round (popped (trace s)))" and
    o2: "popped (trace s) = [] \<or>
         d_round (last (popped (trace s))) = lastFullyAppliedRound s \<or>
         d_round (last (popped (trace s))) = lastFullyAppliedRound s + 1" and
    o3: "applied (trace s) = map d_round (filter d_fetched (popped (trace s)))"
    by (simp_all add: popOrder_def)
  have "successively (\<lambda>a b. b = a \<or> b = a + 1) (map d_round (popped (trace s)) @ [d_round d])"
    using o1 o2 g by (auto simp: successively_append_iff last_map)
  moreover have "d_round (last (popped (trace s'))) = lastFullyAppliedRound s' \<or>
         d_round (last (popped (trace s'))) = lastFullyAppliedRound s' + 1"
    using l g by (auto simp: p)
  moreover have "applied (trace s') = map d_round (filter d_fetched (popped (trace s')))"
    using o3 w by (simp add: a p)
  ultimately show ?thesis by (simp add: popOrder_def p)
qed

lemma reachable_popOrder: "reachable env s \<Longrightarrow> popOrder s"
proof (induction s rule: reachable_invariant)
  case (init synced s)
  then show ?case
    by (auto simp: worker_init_def Let_def popOrder_def split: sum.splits option.splits)
next
  case (drain_apply s s')
  then show ?case by (auto intro: applyDiff_popOrder reachable_wfRoots)
next
  case (drain_finalize s s')
  then show ?case by (auto intro: popOrder_same dest: spawnFinalize_pops)
next
  case (select s ev s')
  then show ?case by (auto intro: popOrder_same dest: selectEvent_pops)
qed

text \<open>
  Claim C1, as stated, fails in its last part. In the run \<open>exRepeat\<close> the two diffs of
  round 0 (IO and state) are both applied: the rounds of the \<open>Apply\<close> calls are 0, 0,
  not strictly increasing. In the run \<open>exGap\<close> round 1 needs no \<open>Apply\<close>: the rounds of
  the \<open>Apply\<close> calls are 0, 0, 2, 2, with a gap.
\<close>

theorem apply_rounds_not_increasing:
  "reachable (exEnv 0) exRepeat \<and> applied (trace exRepeat) = [0, 0] \<and>
   \<not> sorted_wrt (<) (applied (trace exRepeat)) \<and>
   reachable (exEnv 0) exGap \<and> applied (trace exGap) = [0, 0, 2, 2] \<and>
   \<not> successively (\<lambda>a b. b = a + 1) (applied (trace exGap))"
proof -
  have "exRun 0 None [EvBlock (exBlock 0), EvDiff 0 exFetch, EvDiff 0 exFetch] \<noteq> None"
    by code_simp
  moreover have "\<forall>ev\<in>set [EvBlock (exBlock 0), EvDiff 0 exFetch, EvDiff 0 exFetch].
      validEvent (exState 0 None []) ev" by code_simp
  ultimately have r1: "reachable (exEnv 0) exRepeat"
    unfolding exRepeat_def by (rule exState_reachable)
  have "exRun 0 None [EvBlock (exBlock 2), EvDiff 0 exFetch, EvDiff 0 exFetch,
      EvDiff 0 exFetchHas, EvDiff 0 exFetchHas, EvDiff 0 exFetch, EvDiff 0 exFetch] \<noteq> None"
    by code_simp
  moreover have "\<forall>ev\<in>set [EvBlock (exBlock 2), EvDiff 0 exFetch, EvDiff 0 exFetch,
      EvDiff 0 exFetchHas, EvDiff 0 exFetchHas, EvDiff 0 exFetch, EvDiff 0 exFetch].
      validEvent (exState 0 None []) ev" by code_simp
  ultimately have r2: "reachable (exEnv 0) exGap"
    unfolding exGap_def by (rule exState_reachable)
  have a1: "applied (trace exRepeat) = [0, 0]" by code_simp
  have a2: "applied (trace exGap) = [0, 0, 2, 2]" by code_simp
  show ?thesis by (simp add: r1 r2 a1 a2)
qed

lemma exQueued_reachable: "reachable (exEnv 0) exQueued"
proof -
  let ?evs = "[EvBlock (exBlock 0), EvDiff 1 exFetch]"
  have "exRun 0 None ?evs \<noteq> None" by code_simp
  moreover have "\<forall>ev\<in>set ?evs. validEvent (exState 0 None []) ev" by code_simp
  ultimately have r: "reachable (exEnv 0) (exState 0 None ?evs)" by (rule exState_reachable)
  have "stateOf (mainLoop_iter (exEnv 0) (exState 0 None ?evs) (EvDiff 0 exFetch)) =
        stateOf (selectEvent (exEnv 0) (exState 0 None ?evs) (EvDiff 0 exFetch))" by code_simp
  moreover have "stateOf (selectEvent (exEnv 0) (exState 0 None ?evs) (EvDiff 0 exFetch)) \<noteq> None"
    by code_simp
  ultimately have m: "mainLoop_iter (exEnv 0) (exState 0 None ?evs) (EvDiff 0 exFetch) = Next exQueued"
    by (auto simp: exQueued_def stateOf_Some)
  show ?thesis by (rule reach_iter [OF r _ m]) simp
qed

section \<open>The invariant of the main loop\<close>

subsection \<open>The subtree masks\<close>

lemma mask_cases: "m = maskIO \<or> m = maskState \<Longrightarrow> (m = 1 \<or> m = 2)"
  by (auto simp: maskIO_def maskState_def)

lemma mask_nonzero: "m = maskIO \<or> m = maskState \<Longrightarrow> m \<noteq> 0"
  by (auto simp: maskIO_def maskState_def)

lemma mask_keep_clear:
  assumes "m = maskIO \<or> m = maskState" "m' = maskIO \<or> m' = maskState" "m \<noteq> m'"
    and "(a::outstandingMask) AND m' = m'"
  shows "(a AND NOT m) AND m' = m'"
proof -
  have "m' AND NOT m = m'" using assms(1-3)
    by (auto simp: maskIO_def maskState_def)
  moreover have "(a AND NOT m) AND m' = (a AND m') AND NOT m"
    by (simp add: and.commute and.left_commute)
  ultimately show ?thesis using assms(4) by simp
qed

lemma mask_keep_set: "(a::outstandingMask) AND m' = m' \<Longrightarrow> (a OR m) AND m' = m'"
  by (auto simp: bit_eq_iff bit_and_iff bit_or_iff)

lemma mask_set_self: "((a::outstandingMask) OR m) AND m = m"
  by (simp add: and.commute)

subsection \<open>Positions of rounds\<close>

lemma rpos_inj: "rpos x = rpos y \<Longrightarrow> x = y"
  by (simp add: rpos_def word_unat_eq_iff [symmetric])

lemma rpos_Suc: "0 < rpos (x + 1) \<Longrightarrow> rpos (x + 1) = Suc (rpos x)"
proof -
  assume "0 < rpos (x + 1)"
  then have "(x + 1) + 1 \<noteq> 0" by (auto simp: rpos_def)
  then have "unat ((x + 1) + 1) = Suc (unat (x + 1))" by unat_arith
  then show ?thesis by (simp add: rpos_def)
qed

lemma rpos_le: "i \<le> R \<Longrightarrow> R + 1 \<noteq> 0 \<Longrightarrow> rpos i = Suc (unat i)"
  unfolding rpos_def by unat_arith

lemma unat_plus1: "(i::round) + 1 \<noteq> 0 \<Longrightarrow> unat (i + 1) = Suc (unat i)"
  by unat_arith

lemma le_not_max: "(i::round) \<le> R \<Longrightarrow> R + 1 \<noteq> 0 \<Longrightarrow> i + 1 \<noteq> 0"
  by unat_arith

subsection \<open>Lists with distinct keys\<close>

lemma distinct_map_mset:
  "mset xs = add_mset x (mset ys) \<Longrightarrow>
     distinct (map g xs) \<longleftrightarrow> g x \<notin> g ` set ys \<and> distinct (map g ys)"
proof -
  assume a: "mset xs = add_mset x (mset ys)"
  then have "mset (map g xs) = mset (map g (x # ys))" by simp
  then have "distinct (map g xs) = distinct (map g (x # ys))" by (rule mset_eq_imp_distinct_iff)
  then show ?thesis by simp
qed

lemma set_mset_eq: "mset xs = add_mset x (mset ys) \<Longrightarrow> set xs = insert x (set ys)"
  by (metis set_mset_add_mset_insert set_mset_mset)

lemma remove1_mset: "x \<in> set xs \<Longrightarrow> mset xs = add_mset x (mset (remove1 x xs))"
  by simp

lemma same_key_single:
  assumes "distinct (map g xs)" and "x \<in> set xs" and "\<forall>y\<in>set xs. g y = c"
  shows "xs = [x]"
proof (cases xs)
  case Nil
  with assms(2) show ?thesis by simp
next
  case (Cons a ys)
  show ?thesis
  proof (cases ys)
    case Nil
    with Cons assms(2) show ?thesis by simp
  next
    case (Cons b zs)
    with \<open>xs = a # ys\<close> assms(1,3) show ?thesis by auto
  qed
qed

subsection \<open>The tracker of a round\<close>

lemma trackedKey_clear:
  assumes "trackedKey u sr k" and "k \<noteq> (r, m)" and "m = maskIO \<or> m = maskState"
    and "sr r = Some f" and "outstanding f' = outstanding f AND NOT m"
  shows "trackedKey u (sr(r \<mapsto> f')) k"
proof (cases "fst k = r")
  case False
  with assms(1) show ?thesis by (simp add: trackedKey_def)
next
  case True
  with assms(2) have ne: "m \<noteq> snd k" by (cases k) auto
  from assms(1,4) True have "outstanding f AND snd k = snd k" by (auto simp: trackedKey_def)
  with mask_keep_clear [OF assms(3) _ ne] assms(1) have "(outstanding f AND NOT m) AND snd k = snd k"
    by (auto simp: trackedKey_def)
  with assms(1,5) True show ?thesis by (simp add: trackedKey_def)
qed

lemma trackedKey_delete:
  assumes "trackedKey u sr k" and "k \<noteq> (r, m)" and "m = maskIO \<or> m = maskState"
    and "sr r = Some f" and "outstanding f AND NOT m = 0"
  shows "trackedKey u (sr(r := None)) k"
proof (cases "fst k = r")
  case False
  with assms(1) show ?thesis by (simp add: trackedKey_def)
next
  case True
  with assms(2) have ne: "m \<noteq> snd k" by (cases k) auto
  from assms(1,4) True have "outstanding f AND snd k = snd k" by (auto simp: trackedKey_def)
  with mask_keep_clear [OF assms(3) _ ne] assms(1) have "(outstanding f AND NOT m) AND snd k = snd k"
    by (auto simp: trackedKey_def)
  with assms(5) have "snd k = 0" by simp
  with assms(1) mask_nonzero [of "snd k"] show ?thesis by (auto simp: trackedKey_def)
qed

lemma trackedKey_set:
  assumes "trackedKey u sr k" and "sr i = Some f" and "outstanding f' = outstanding f OR m"
  shows "trackedKey u (sr(i \<mapsto> f')) k"
proof (cases "fst k = i")
  case False
  with assms(1) show ?thesis by (simp add: trackedKey_def)
next
  case True
  from assms(1,2) True have "outstanding f AND snd k = snd k" by (auto simp: trackedKey_def)
  then have "(outstanding f OR m) AND snd k = snd k" by (rule mask_keep_set)
  with assms(1,3) True show ?thesis by (simp add: trackedKey_def)
qed

lemma trackedKey_create:
  assumes "trackedKey u sr k" and "sr i = None"
  shows "trackedKey u (sr(i \<mapsto> f')) k"
  using assms by (auto simp: trackedKey_def)

subsection \<open>Keys of the fetches and diffs in flight\<close>

lemma keys_pop:
  assumes "mset ds = add_mset d (mset q)" and "distinct (A @ map g ds)"
  shows "distinct (A @ map g q)" and "g d \<notin> set (A @ map g q)"
    and "set (A @ map g ds) = insert (g d) (set (A @ map g q))"
proof -
  from assms(1) have d: "distinct (map g ds) \<longleftrightarrow> g d \<notin> g ` set q \<and> distinct (map g q)"
    by (rule distinct_map_mset)
  from assms(1) have s: "set ds = insert d (set q)" by (rule set_mset_eq)
  from assms(2) d s show "distinct (A @ map g q)" by auto
  from assms(2) d s show "g d \<notin> set (A @ map g q)" by auto
  from s show "set (A @ map g ds) = insert (g d) (set (A @ map g q))" by auto
qed

lemma keys_move_aux:
  "mset ts = add_mset t (mset ys) \<Longrightarrow> mset ds' = add_mset d (mset ds) \<Longrightarrow> g d = h t \<Longrightarrow>
     mset (map h ys @ map g ds') = mset (map h ts @ map g ds)"
  by simp

lemma keys_move:
  assumes "t \<in> set ts" and "mset ds' = add_mset d (mset ds)" and "g d = h t"
  shows "distinct (map h (remove1 t ts) @ map g ds') \<longleftrightarrow> distinct (map h ts @ map g ds)"
    and "set (map h (remove1 t ts) @ map g ds') = set (map h ts @ map g ds)"
proof -
  from assms(1) have "mset ts = add_mset t (mset (remove1 t ts))" by simp
  then have e: "mset (map h (remove1 t ts) @ map g ds') = mset (map h ts @ map g ds)"
    using assms(2,3) by (rule keys_move_aux)
  then show "distinct (map h (remove1 t ts) @ map g ds') \<longleftrightarrow> distinct (map h ts @ map g ds)"
    by (rule mset_eq_imp_distinct_iff)
  from e show "set (map h (remove1 t ts) @ map g ds') = set (map h ts @ map g ds)"
    by (rule mset_eq_setD)
qed

lemma keys_remove:
  assumes "t \<in> set ts" and "distinct (map h ts @ B)"
  shows "distinct (map h (remove1 t ts) @ B)" and "h t \<notin> set (map h (remove1 t ts) @ B)"
    and "set (map h (remove1 t ts) @ B) \<subseteq> set (map h ts @ B)"
proof -
  from assms(1) have m: "mset ts = add_mset t (mset (remove1 t ts))" by simp
  from m have d: "distinct (map h ts) \<longleftrightarrow> h t \<notin> h ` set (remove1 t ts) \<and> distinct (map h (remove1 t ts))"
    by (rule distinct_map_mset)
  from m have s: "set ts = insert t (set (remove1 t ts))" by (rule set_mset_eq)
  from assms(2) d s show "distinct (map h (remove1 t ts) @ B)" by auto
  from assms(2) d s show "h t \<notin> set (map h (remove1 t ts) @ B)" by auto
  from s show "set (map h (remove1 t ts) @ B) \<subseteq> set (map h ts @ B)" by auto
qed

subsection \<open>The passes of the main loop keep the invariant\<close>

lemma spawned_append: "spawned (a @ b) = spawned a @ spawned b"
  by (induction a rule: spawned.induct) simp_all

lemma spawned_map [simp]:
  "spawned (map CallGetBlock rs) = []" "spawned (map SubmitFetch ts) = []"
  by (induction rs, simp_all) (induction ts, simp_all)

lemma keyedCache_cong:
  "hashCache s' = hashCache s \<Longrightarrow> undefinedRound s' = undefinedRound s \<Longrightarrow>
     keyedCache s' = keyedCache s"
  by (simp add: keyedCache_def)

lemma roundsOrdered_cong:
  "undefinedRound s' = undefinedRound s \<Longrightarrow> cachedLastRound s' = cachedLastRound s \<Longrightarrow>
   lastFullyAppliedRound s' = lastFullyAppliedRound s \<Longrightarrow> roundsOrdered s' = roundsOrdered s"
  by (simp add: roundsOrdered_def)

lemma tracked_cong:
  "undefinedRound s' = undefinedRound s \<Longrightarrow> syncingRounds s' = syncingRounds s \<Longrightarrow>
   fetching s' = fetching s \<Longrightarrow> outOfOrderDiffs s' = outOfOrderDiffs s \<Longrightarrow>
   tracked s' = tracked s"
  by (simp add: tracked_def inFlightKeys_def)

lemma finalizeOrder_cong:
  "finalizing s' = finalizing s \<Longrightarrow> outOfOrderApplieds s' = outOfOrderApplieds s \<Longrightarrow>
   cachedLastRound s' = cachedLastRound s \<Longrightarrow>
   lastFullyAppliedRound s' = lastFullyAppliedRound s \<Longrightarrow> finalizeOrder s' = finalizeOrder s"
  by (simp add: finalizeOrder_def)

lemma spawnOrder_cong:
  "finalizing s' = finalizing s \<Longrightarrow> cachedLastRound s' = cachedLastRound s \<Longrightarrow>
   spawned (trace s') = spawned (trace s) \<Longrightarrow> spawnOrder s' = spawnOrder s"
  by (simp add: spawnOrder_def)

lemma finalizeOrderD:
  assumes "finalizeOrder s"
  shows "distinct (map Round (finalizing s @ outOfOrderApplieds s))"
    and "\<forall>sm\<in>set (finalizing s @ outOfOrderApplieds s).
          rpos (cachedLastRound s) < rpos (Round sm) \<and>
          rpos (Round sm) \<le> rpos (lastFullyAppliedRound s)"
    and "\<forall>sm\<in>set (finalizing s). Round sm = cachedLastRound s + 1"
  using assms unfolding finalizeOrder_def by blast+

lemma finalizeOrderI:
  assumes "distinct (map Round (finalizing s @ outOfOrderApplieds s))"
    and "\<forall>sm\<in>set (finalizing s @ outOfOrderApplieds s).
          rpos (cachedLastRound s) < rpos (Round sm) \<and>
          rpos (Round sm) \<le> rpos (lastFullyAppliedRound s)"
    and "\<forall>sm\<in>set (finalizing s). Round sm = cachedLastRound s + 1"
  shows "finalizeOrder s"
  using assms unfolding finalizeOrder_def by blast

lemma applyDiff_loopInv:
  assumes a: "applyDiff env s = Next s'" and g: "applyGuard s" and i: "loopInv s"
  shows "loopInv s'"
proof -
  from a obtain d q where p: "heap_Pop d_round (outOfOrderDiffs s) = Some (d, q)"
    by (auto simp: applyDiff_def split: option.splits)
  from heap_Pop_Some [OF p] have d0: "d = outOfOrderDiffs s ! 0"
    and ms: "mset (outOfOrderDiffs s) = add_mset d (mset q)" by auto
  define r where "r = d_round d"
  define m where "m = d_fetchMask d"
  from g d0 have gr: "r = lastFullyAppliedRound s + 1" by (simp add: applyGuard_def r_def)
  from i have kc: "keyedCache s" and ro: "roundsOrdered s" and tr: "tracked s"
    and fo: "finalizeOrder s" and so: "spawnOrder s" by (simp_all add: loopInv_def)
  from tr have dk: "distinct (map taskKey (fetching s) @ map diffKey (outOfOrderDiffs s))"
    and tk: "\<forall>k\<in>set (map taskKey (fetching s) @ map diffKey (outOfOrderDiffs s)).
               trackedKey (undefinedRound s) (syncingRounds s) k"
    by (simp_all add: tracked_def inFlightKeys_def)
  note kp = keys_pop [OF ms dk]
  have key: "diffKey d = (r, m)" by (simp add: diffKey_def r_def m_def)
  from tk kp(3) have "trackedKey (undefinedRound s) (syncingRounds s) (r, m)"
    by (simp add: key)
  then obtain f where mm: "m = maskIO \<or> m = maskState"
    and rp: "rpos (undefinedRound s) < rpos r"
    and sf: "syncingRounds s r = Some f"
    by (auto simp: trackedKey_def)
  define f' where "f' = f\<lparr>outstanding := outstanding f AND NOT m\<rparr>"
  define s1 where "s1 = applyWriteLog env d (s\<lparr>outOfOrderDiffs := q, trace := trace s @ [PopDiff d]\<rparr>)"
  have s1f: "undefinedRound s1 = undefinedRound s" "cachedLastRound s1 = cachedLastRound s"
    "lastFullyAppliedRound s1 = lastFullyAppliedRound s" "outOfOrderDiffs s1 = q"
    "outOfOrderApplieds s1 = outOfOrderApplieds s" "syncingRounds s1 = syncingRounds s"
    "hashCache s1 = hashCache s" "fetching s1 = fetching s" "finalizing s1 = finalizing s"
    "spawned (trace s1) = spawned (trace s)"
    by (simp_all add: s1_def applyWriteLog_def Let_def spawned_append)
  from a p have rs: "roundSynced d s1 = Next s'" by (simp add: applyDiff_def s1_def)
  have keys': "\<forall>k\<in>set (map taskKey (fetching s) @ map diffKey q).
      trackedKey (undefinedRound s) (syncingRounds s) k \<and> k \<noteq> (r, m)"
    using tk kp(2,3) by (auto simp: key)
  show ?thesis
  proof (cases "outstanding f' = maskNone \<and> awaitingRetry f' = maskNone")
    case False
    with rs sf have e: "s' = s1\<lparr>syncingRounds := (syncingRounds s)(r \<mapsto> f')\<rparr>"
      by (auto simp: roundSynced_def Let_def r_def [symmetric] m_def [symmetric] f'_def s1f)
    have "keyedCache s'" using kc keyedCache_cong [of s' s] by (simp add: e s1f)
    moreover have "roundsOrdered s'" using ro roundsOrdered_cong [of s' s] by (simp add: e s1f)
    moreover have "tracked s'"
      using kp(1) keys' mm sf
      by (auto simp: tracked_def inFlightKeys_def e s1f f'_def intro!: trackedKey_clear)
    moreover have "finalizeOrder s'" using fo finalizeOrder_cong [of s' s] by (simp add: e s1f)
    moreover have "spawnOrder s'" using so spawnOrder_cong [of s' s] by (simp add: e s1f)
    ultimately show ?thesis by (simp add: loopInv_def)
  next
    case True
    with rs sf obtain summary where hs: "hashCache s r = Some summary"
      and e: "s' = s1\<lparr> syncingRounds := (syncingRounds s)(r := None),
                        hashCache := (hashCache s)(r - 1 := None),
                        lastFullyAppliedRound := r,
                        outOfOrderApplieds := heap_Push Round (outOfOrderApplieds s) summary \<rparr>"
      by (auto simp: roundSynced_def Let_def r_def [symmetric] m_def [symmetric] f'_def s1f
               split: option.splits)
    from True have z: "outstanding f AND NOT m = 0" by (simp add: f'_def maskNone_def)
    have rne: "r \<noteq> undefinedRound s" using rp by auto
    with kc hs have rr: "Round summary = r" by (auto simp: keyedCache_def)
    have pl: "rpos r = Suc (rpos (lastFullyAppliedRound s))"
      using rpos_Suc [of "lastFullyAppliedRound s"] rp gr by simp
    have "keyedCache s'" using kc by (simp add: e keyedCache_def s1f)
    moreover have "roundsOrdered s'" using ro pl by (simp add: e roundsOrdered_def s1f)
    moreover have "tracked s'"
      using kp(1) keys' mm sf z
      by (auto simp: tracked_def inFlightKeys_def e s1f intro!: trackedKey_delete)
    moreover have "finalizeOrder s'"
    proof -
      have me: "mset (finalizing s @ heap_Push Round (outOfOrderApplieds s) summary) =
            add_mset summary (mset (finalizing s @ outOfOrderApplieds s))"
        by (simp add: mset_heap_Push)
      note od = finalizeOrderD(1) [OF fo] and old = finalizeOrderD(2) [OF fo]
        and fin = finalizeOrderD(3) [OF fo]
      have "\<forall>sm\<in>set (finalizing s @ outOfOrderApplieds s). Round sm \<noteq> r"
      proof
        fix sm
        assume "sm \<in> set (finalizing s @ outOfOrderApplieds s)"
        with old have "rpos (Round sm) \<le> rpos (lastFullyAppliedRound s)" by blast
        with pl show "Round sm \<noteq> r" by auto
      qed
      then have "Round summary \<notin> Round ` set (finalizing s @ outOfOrderApplieds s)"
        unfolding rr by blast
      with od distinct_map_mset [OF me, of Round]
      have d': "distinct (map Round (finalizing s @ heap_Push Round (outOfOrderApplieds s) summary))"
        by simp
      have s': "set (finalizing s @ heap_Push Round (outOfOrderApplieds s) summary) =
                insert summary (set (finalizing s @ outOfOrderApplieds s))"
        using me by (rule set_mset_eq)
      have b': "\<forall>sm\<in>set (finalizing s @ heap_Push Round (outOfOrderApplieds s) summary).
          rpos (cachedLastRound s) < rpos (Round sm) \<and> rpos (Round sm) \<le> rpos r"
      proof
        fix sm
        assume "sm \<in> set (finalizing s @ heap_Push Round (outOfOrderApplieds s) summary)"
        then have "sm = summary \<or> sm \<in> set (finalizing s @ outOfOrderApplieds s)"
          unfolding s' by simp
        then show "rpos (cachedLastRound s) < rpos (Round sm) \<and> rpos (Round sm) \<le> rpos r"
        proof
          assume "sm = summary"
          with ro pl rr show ?thesis by (simp add: roundsOrdered_def)
        next
          assume "sm \<in> set (finalizing s @ outOfOrderApplieds s)"
          with old have "rpos (cachedLastRound s) < rpos (Round sm) \<and>
              rpos (Round sm) \<le> rpos (lastFullyAppliedRound s)" by blast
          with pl show ?thesis by simp
        qed
      qed
      have c: "finalizing s' = finalizing s"
        "outOfOrderApplieds s' = heap_Push Round (outOfOrderApplieds s) summary"
        "cachedLastRound s' = cachedLastRound s" "lastFullyAppliedRound s' = r"
        by (simp_all add: e s1f)
      show ?thesis
        by (rule finalizeOrderI) (use d' b' fin in \<open>simp_all only: c\<close>)
    qed
    moreover have "spawnOrder s'" using so spawnOrder_cong [of s' s] by (simp add: e s1f)
    ultimately show ?thesis by (simp add: loopInv_def)
  qed
qed

lemma spawnFinalize_loopInv:
  assumes a: "spawnFinalize s = Next s'" and g: "finalizeGuard s" and i: "loopInv s"
  shows "loopInv s'" and "finalizing s = []"
proof -
  from a obtain h q where p: "heap_Pop Round (outOfOrderApplieds s) = Some (h, q)"
    by (auto simp: spawnFinalize_def split: option.splits)
  from heap_Pop_Some [OF p] have h0: "h = outOfOrderApplieds s ! 0"
    and ms: "mset (outOfOrderApplieds s) = add_mset h (mset q)" by auto
  from a p have e: "s' = s\<lparr> outOfOrderApplieds := q, finalizing := finalizing s @ [h],
                             trace := trace s @ [SpawnFinalize h] \<rparr>"
    by (simp add: spawnFinalize_def)
  from g h0 have rh: "Round h = cachedLastRound s + 1" by (simp add: finalizeGuard_def)
  from i have kc: "keyedCache s" and ro: "roundsOrdered s" and tr: "tracked s"
    and fo: "finalizeOrder s" and so: "spawnOrder s" by (simp_all add: loopInv_def)
  note od = finalizeOrderD(1) [OF fo] and old = finalizeOrderD(2) [OF fo]
    and fin = finalizeOrderD(3) [OF fo]
  from ms have sh: "set (outOfOrderApplieds s) = insert h (set q)" by (rule set_mset_eq)
  show fe: "finalizing s = []"
  proof (rule ccontr)
    assume "finalizing s \<noteq> []"
    then obtain f where f: "f \<in> set (finalizing s)" by (cases "finalizing s") auto
    with fin rh have "Round f = Round h" by simp
    moreover have "h \<in> set (outOfOrderApplieds s)" using sh by simp
    ultimately have "Round f \<in> Round ` set (finalizing s) \<inter> Round ` set (outOfOrderApplieds s)"
      using f by (metis IntI imageI)
    with od show False by auto
  qed
  have c: "finalizing s' = [h]" "outOfOrderApplieds s' = q"
    "cachedLastRound s' = cachedLastRound s" "lastFullyAppliedRound s' = lastFullyAppliedRound s"
    "undefinedRound s' = undefinedRound s" "hashCache s' = hashCache s"
    "syncingRounds s' = syncingRounds s" "fetching s' = fetching s"
    "outOfOrderDiffs s' = outOfOrderDiffs s"
    "spawned (trace s') = spawned (trace s) @ [h]"
    by (simp_all add: e fe spawned_append)
  have "keyedCache s'" using kc keyedCache_cong [of s' s] c by simp
  moreover have "roundsOrdered s'" using ro roundsOrdered_cong [of s' s] c by simp
  moreover have "tracked s'" using tr tracked_cong [of s' s] c by simp
  moreover have "finalizeOrder s'"
  proof (rule finalizeOrderI)
    from od fe have "distinct (map Round (outOfOrderApplieds s))" by simp
    with distinct_map_mset [OF ms, of Round]
    show "distinct (map Round (finalizing s' @ outOfOrderApplieds s'))" by (simp add: c)
    from old fe sh
    show "\<forall>sm\<in>set (finalizing s' @ outOfOrderApplieds s').
          rpos (cachedLastRound s') < rpos (Round sm) \<and>
          rpos (Round sm) \<le> rpos (lastFullyAppliedRound s')" by (simp add: c)
    from rh show "\<forall>sm\<in>set (finalizing s'). Round sm = cachedLastRound s' + 1" by (simp add: c)
  qed
  moreover have "spawnOrder s'"
  proof -
    from so have s1: "successively (\<lambda>a b. b = a + 1) (map Round (spawned (trace s)))"
      and s2: "spawned (trace s) = [] \<or> Round (last (spawned (trace s))) = cachedLastRound s"
      by (simp_all add: spawnOrder_def fe)
    have "successively (\<lambda>a b. b = a + 1) (map Round (spawned (trace s)) @ [Round h])"
    proof (cases "spawned (trace s) = []")
      case True
      then show ?thesis by simp
    next
      case False
      with s2 have "last (map Round (spawned (trace s))) = cachedLastRound s"
        by (simp add: last_map)
      with s1 rh False show ?thesis by (simp add: successively_append_iff)
    qed
    with rh show ?thesis by (simp add: spawnOrder_def c)
  qed
  ultimately show "loopInv s'" by (simp add: loopInv_def)
qed

lemma handlePruned_loopInv:
  assumes "handlePruned env prunedBlk s = Next s'" and i: "loopInv s"
  shows "loopInv s'"
proof -
  from assms(1) have c: "finalizing s' = finalizing s" "outOfOrderApplieds s' = outOfOrderApplieds s"
    "cachedLastRound s' = cachedLastRound s" "lastFullyAppliedRound s' = lastFullyAppliedRound s"
    "undefinedRound s' = undefinedRound s" "hashCache s' = hashCache s"
    "syncingRounds s' = syncingRounds s" "fetching s' = fetching s"
    "outOfOrderDiffs s' = outOfOrderDiffs s"
    "spawned (trace s') = spawned (trace s)"
    by (auto simp: handlePruned_def Let_def spawned_append split: if_splits)
  from i have kc: "keyedCache s" and ro: "roundsOrdered s" and tr: "tracked s"
    and fo: "finalizeOrder s" and so: "spawnOrder s" by (simp_all add: loopInv_def)
  have "keyedCache s'" using kc keyedCache_cong [of s' s] c by simp
  moreover have "roundsOrdered s'" using ro roundsOrdered_cong [of s' s] c by simp
  moreover have "tracked s'" using tr tracked_cong [of s' s] c by simp
  moreover have "finalizeOrder s'" using fo finalizeOrder_cong [of s' s] c by simp
  moreover have "spawnOrder s'" using so spawnOrder_cong [of s' s] c by simp
  ultimately show ?thesis by (simp add: loopInv_def)
qed

lemma handleFinalized_loopInv:
  assumes a: "handleFinalized env f (s\<lparr>finalizing := remove1 f (finalizing s)\<rparr>) = Next s'"
    and m: "f \<in> set (finalizing s)" and i: "loopInv s"
  shows "loopInv s'"
proof -
  from i have kc: "keyedCache s" and ro: "roundsOrdered s" and tr: "tracked s"
    and fo: "finalizeOrder s" and so: "spawnOrder s" by (simp_all add: loopInv_def)
  note od = finalizeOrderD(1) [OF fo] and old = finalizeOrderD(2) [OF fo]
    and fin = finalizeOrderD(3) [OF fo]
  from od have "distinct (map Round (finalizing s))" by simp
  from same_key_single [OF this m fin] have fs: "finalizing s = [f]" .
  from fin m have rf: "Round f = cachedLastRound s + 1" by simp
  from old m have bf: "rpos (cachedLastRound s) < rpos (Round f)"
    "rpos (Round f) \<le> rpos (lastFullyAppliedRound s)" by auto
  from bf(1) rf have pf: "rpos (Round f) = Suc (rpos (cachedLastRound s))"
    using rpos_Suc [of "cachedLastRound s"] by simp
  from a have c: "finalizing s' = []" "outOfOrderApplieds s' = outOfOrderApplieds s"
    "cachedLastRound s' = Round f" "lastFullyAppliedRound s' = lastFullyAppliedRound s"
    "undefinedRound s' = undefinedRound s" "hashCache s' = hashCache s"
    "syncingRounds s' = syncingRounds s" "fetching s' = fetching s"
    "outOfOrderDiffs s' = outOfOrderDiffs s"
    "spawned (trace s') = spawned (trace s)"
    by (auto simp: handleFinalized_def Let_def spawned_append fs split: if_splits)
  have "keyedCache s'" using kc keyedCache_cong [of s' s] c by simp
  moreover have "roundsOrdered s'" using ro bf pf by (simp add: roundsOrdered_def c)
  moreover have "tracked s'" using tr tracked_cong [of s' s] c by simp
  moreover have "finalizeOrder s'"
  proof (rule finalizeOrderI)
    from od show "distinct (map Round (finalizing s' @ outOfOrderApplieds s'))" by (simp add: c)
    show "\<forall>sm\<in>set (finalizing s' @ outOfOrderApplieds s').
          rpos (cachedLastRound s') < rpos (Round sm) \<and>
          rpos (Round sm) \<le> rpos (lastFullyAppliedRound s')"
    proof
      fix sm
      assume "sm \<in> set (finalizing s' @ outOfOrderApplieds s')"
      then have sm: "sm \<in> set (outOfOrderApplieds s)" by (simp add: c)
      with old have b: "rpos (cachedLastRound s) < rpos (Round sm)"
        "rpos (Round sm) \<le> rpos (lastFullyAppliedRound s)" by auto
      from od fs have "Round f \<notin> Round ` set (outOfOrderApplieds s)" by simp
      with sm have "Round sm \<noteq> Round f" by (metis imageI)
      then have "rpos (Round sm) \<noteq> rpos (Round f)" using rpos_inj by blast
      with b pf show "rpos (cachedLastRound s') < rpos (Round sm) \<and>
          rpos (Round sm) \<le> rpos (lastFullyAppliedRound s')" by (simp add: c)
    qed
    show "\<forall>sm\<in>set (finalizing s'). Round sm = cachedLastRound s' + 1" by (simp add: c)
  qed
  moreover have "spawnOrder s'" using so rf by (simp add: spawnOrder_def c fs)
  ultimately show ?thesis by (simp add: loopInv_def)
qed

lemma handleDiff_loopInv:
  assumes a: "handleDiff item (s\<lparr>fetching := remove1 task (fetching s)\<rparr>) = Next s'"
    and m: "task \<in> set (fetching s)"
    and k: "d_round item = t_round task" "d_fetchMask item = t_fetchMask task"
    and i: "loopInv s"
  shows "loopInv s'"
proof -
  from i have kc: "keyedCache s" and ro: "roundsOrdered s" and tr: "tracked s"
    and fo: "finalizeOrder s" and so: "spawnOrder s" by (simp_all add: loopInv_def)
  from tr have dk: "distinct (map taskKey (fetching s) @ map diffKey (outOfOrderDiffs s))"
    and tk: "\<forall>k\<in>set (map taskKey (fetching s) @ map diffKey (outOfOrderDiffs s)).
               trackedKey (undefinedRound s) (syncingRounds s) k"
    by (simp_all add: tracked_def inFlightKeys_def)
  define r where "r = d_round item"
  define mk where "mk = d_fetchMask item"
  have key: "diffKey item = taskKey task" "taskKey task = (r, mk)"
    using k by (simp_all add: diffKey_def taskKey_def r_def mk_def)
  from a have c: "finalizing s' = finalizing s" "outOfOrderApplieds s' = outOfOrderApplieds s"
    "cachedLastRound s' = cachedLastRound s" "lastFullyAppliedRound s' = lastFullyAppliedRound s"
    "undefinedRound s' = undefinedRound s" "hashCache s' = hashCache s"
    "fetching s' = remove1 task (fetching s)"
    "spawned (trace s') = spawned (trace s)"
    by (auto simp: handleDiff_def Let_def spawned_append split: if_splits option.splits)
  have "keyedCache s'" using kc keyedCache_cong [of s' s] c by simp
  moreover have "roundsOrdered s'" using ro roundsOrdered_cong [of s' s] c by simp
  moreover have "finalizeOrder s'" using fo finalizeOrder_cong [of s' s] c by simp
  moreover have "spawnOrder s'" using so spawnOrder_cong [of s' s] c by simp
  moreover have "tracked s'"
  proof (cases "d_err item")
    case None
    with a have e: "outOfOrderDiffs s' = heap_Push d_round (outOfOrderDiffs s) item"
      "syncingRounds s' = syncingRounds s"
      by (auto simp: handleDiff_def)
    have me: "mset (heap_Push d_round (outOfOrderDiffs s) item) = add_mset item (mset (outOfOrderDiffs s))"
      by (rule mset_heap_Push)
    note km = keys_move [of task "fetching s" _ item "outOfOrderDiffs s" diffKey taskKey, OF m me key(1)]
    from dk tk km show ?thesis by (simp add: tracked_def inFlightKeys_def c e)
  next
    case (Some err)
    from tk m key have "trackedKey (undefinedRound s) (syncingRounds s) (r, mk)"
      by (metis UnI1 image_eqI set_append set_map)
    then obtain f where mm: "mk = maskIO \<or> mk = maskState" and sf: "syncingRounds s r = Some f"
      by (auto simp: trackedKey_def)
    define f' where "f' = f\<lparr> outstanding := outstanding f AND NOT mk,
                              awaitingRetry := awaitingRetry f OR mk \<rparr>"
    from a Some sf have e: "outOfOrderDiffs s' = outOfOrderDiffs s"
      "syncingRounds s' = (syncingRounds s)(r \<mapsto> f')"
      by (auto simp: handleDiff_def Let_def r_def [symmetric] mk_def [symmetric] f'_def)
    note kr = keys_remove [OF m dk]
    have "\<forall>k\<in>set (map taskKey (remove1 task (fetching s)) @ map diffKey (outOfOrderDiffs s)).
            trackedKey (undefinedRound s) ((syncingRounds s)(r \<mapsto> f')) k"
    proof
      fix k
      assume kin: "k \<in> set (map taskKey (remove1 task (fetching s)) @ map diffKey (outOfOrderDiffs s))"
      with kr(2) have ne: "k \<noteq> (r, mk)" using key(2) by auto
      from kin kr(3) tk have "trackedKey (undefinedRound s) (syncingRounds s) k" by blast
      from trackedKey_clear [OF this ne mm sf, of f'] show
        "trackedKey (undefinedRound s) ((syncingRounds s)(r \<mapsto> f')) k" by (simp add: f'_def)
    qed
    with kr(1) show ?thesis by (simp add: tracked_def inFlightKeys_def c e)
  qed
  ultimately show ?thesis by (simp add: loopInv_def)
qed

lemma installDummy_keyedCache: "keyedCache s \<Longrightarrow> keyedCache (installDummy blk s)"
  by (auto simp: keyedCache_def installDummy_def)

lemma cacheBlock_keyedCache: "keyedCache s \<Longrightarrow> keyedCache (cacheBlock blk s)"
  by (auto simp: keyedCache_def cacheBlock_def summaryFromBlock_def)

lemma fetchSummaries_keyedCache:
  "fetchSummaries env i R s = Some s' \<Longrightarrow> wfEnv env \<Longrightarrow> keyedCache s \<Longrightarrow> keyedCache s'"
proof (induction env i R s rule: fetchSummaries.induct)
  case (1 env i R s)
  show ?case
  proof (cases "i < R")
    case False
    with "1.prems" have "s' = s" by (subst (asm) fetchSummaries.simps) simp
    with "1.prems" show ?thesis by simp
  next
    case True
    show ?thesis
    proof (cases "hashCache s i")
      case (Some sm)
      with True "1.prems" have "fetchSummaries env (i + 1) R s = Some s'"
        by (subst (asm) fetchSummaries.simps) simp
      with "1.IH"(1) True Some "1.prems" show ?thesis by simp
    next
      case None
      with True "1.prems" obtain oldBlock where
        ob: "GetBlock env (RuntimeID env) i = Inr oldBlock" and
        rec: "fetchSummaries env (i + 1) R
                (s\<lparr>trace := trace s @ [CallGetBlock i],
                   hashCache := (hashCache s)(i \<mapsto> summaryFromBlock oldBlock)\<rparr>) = Some s'"
        by (subst (asm) fetchSummaries.simps) (auto simp: Let_def split: sum.splits)
      from ob "1.prems"(2) have "hdr_Round (Header oldBlock) = i" by (simp add: wfEnv_def)
      with "1.prems"(3) have
        "keyedCache (s\<lparr>trace := trace s @ [CallGetBlock i],
                   hashCache := (hashCache s)(i \<mapsto> summaryFromBlock oldBlock)\<rparr>)"
        by (auto simp: keyedCache_def summaryFromBlock_def)
      with "1.IH"(2) [OF True _ refl ob] None rec "1.prems"(2) show ?thesis by simp
    qed
  qed
qed

lemma scheduleMask_tracked:
  assumes tr: "tracked s" and key: "taskKey task = (i, m)"
    and mm: "m = maskIO \<or> m = maskState"
    and pos: "rpos (undefinedRound s) < rpos i"
  shows "tracked (scheduleMask i m task s)"
proof (cases "syncingRounds s i")
  case None
  with tr show ?thesis by (simp add: scheduleMask_def)
next
  case (Some f)
  show ?thesis
  proof (cases "outstanding f AND m = 0 \<and> awaitingRetry f AND m \<noteq> 0")
    case False
    with Some have "scheduleMask i m task s = s" by (auto simp: scheduleMask_def)
    with tr show ?thesis by simp
  next
    case True
    define f' where "f' = f\<lparr> outstanding := outstanding f OR m,
                              awaitingRetry := awaitingRetry f AND NOT m \<rparr>"
    define s' where "s' = scheduleMask i m task s"
    from Some True have c: "fetching s' = fetching s @ [task]"
      "syncingRounds s' = (syncingRounds s)(i \<mapsto> f')"
      "outOfOrderDiffs s' = outOfOrderDiffs s" "undefinedRound s' = undefinedRound s"
      by (simp_all add: s'_def scheduleMask_def submitFetch_def f'_def)
    from tr have dk: "distinct (map taskKey (fetching s) @ map diffKey (outOfOrderDiffs s))"
      and tk: "\<forall>k\<in>set (map taskKey (fetching s) @ map diffKey (outOfOrderDiffs s)).
               trackedKey (undefinedRound s) (syncingRounds s) k"
      by (simp_all add: tracked_def inFlightKeys_def)
    have new: "(i, m) \<notin> set (map taskKey (fetching s) @ map diffKey (outOfOrderDiffs s))"
    proof
      assume "(i, m) \<in> set (map taskKey (fetching s) @ map diffKey (outOfOrderDiffs s))"
      with tk have "trackedKey (undefinedRound s) (syncingRounds s) (i, m)" by blast
      with Some have "outstanding f AND m = m" by (simp add: trackedKey_def)
      with True have "m = 0" by simp
      with mask_nonzero [OF mm] show False by simp
    qed
    have d': "distinct (map taskKey (fetching s') @ map diffKey (outOfOrderDiffs s'))"
      using dk new by (simp add: c key)
    have t': "\<forall>k\<in>set (map taskKey (fetching s') @ map diffKey (outOfOrderDiffs s')).
               trackedKey (undefinedRound s') (syncingRounds s') k"
    proof
      fix k
      assume kin: "k \<in> set (map taskKey (fetching s') @ map diffKey (outOfOrderDiffs s'))"
      show "trackedKey (undefinedRound s') (syncingRounds s') k"
      proof (cases "k = (i, m)")
        case True
        then show ?thesis using mm pos
          by (simp add: trackedKey_def c f'_def mask_set_self)
      next
        case False
        with kin have "k \<in> set (map taskKey (fetching s) @ map diffKey (outOfOrderDiffs s))"
          by (auto simp: c key)
        with tk have "trackedKey (undefinedRound s) (syncingRounds s) k" by blast
        from trackedKey_set [OF this Some, of f' m] show ?thesis by (simp add: c f'_def)
      qed
    qed
    from d' t' show ?thesis by (simp add: tracked_def inFlightKeys_def s'_def)
  qed
qed

lemma scheduleMask_undefinedRound: "undefinedRound (scheduleMask i m task s) = undefinedRound s"
  using scheduleMask_frame [of i m task s] by auto

lemma scheduleRound_tracked:
  assumes a: "scheduleRound i s = Next s'" and tr: "tracked s" and kc: "keyedCache s"
    and pos: "rpos (undefinedRound s) < rpos i"
  shows "tracked s'"
proof (cases "s' = s")
  case True
  with tr show ?thesis by simp
next
  case False
  define s1 where "s1 = (if syncingRounds s i = None
                  then s\<lparr>syncingRounds := (syncingRounds s)(i \<mapsto>
                           \<lparr> outstanding = maskNone, awaitingRetry = maskAll \<rparr>)\<rparr>
                  else s)"
  have u1: "undefinedRound s1 = undefinedRound s" and h1: "hashCache s1 = hashCache s"
    by (simp_all add: s1_def)
  have t1: "tracked s1"
  proof (cases "syncingRounds s i")
    case None
    with tr show ?thesis
      by (auto simp: s1_def tracked_def inFlightKeys_def intro!: trackedKey_create)
  next
    case (Some f)
    with tr show ?thesis by (simp add: s1_def)
  qed
  from a False obtain this ta tb where
    hc: "hashCache s1 i = Some this" and
    g: "s' = scheduleMask i maskState tb (scheduleMask i maskIO ta s1)" and
    k: "taskKey ta = (Round this, maskIO)" "taskKey tb = (Round this, maskState)"
    by (auto simp: scheduleRound_def Let_def s1_def [symmetric] taskKey_def
             split: if_splits option.splits)
  from pos have "i \<noteq> undefinedRound s" by auto
  with kc hc h1 have "Round this = i" by (simp add: keyedCache_def)
  with k have k': "taskKey ta = (i, maskIO)" "taskKey tb = (i, maskState)" by simp_all
  from pos u1 have p1: "rpos (undefinedRound s1) < rpos i" by simp
  have t2: "tracked (scheduleMask i maskIO ta s1)"
    by (rule scheduleMask_tracked [OF t1 k'(1) _ p1]) simp
  from p1 have p2: "rpos (undefinedRound (scheduleMask i maskIO ta s1)) < rpos i"
    by (simp add: scheduleMask_undefinedRound)
  show ?thesis unfolding g
    by (rule scheduleMask_tracked [OF t2 k'(2) _ p2]) simp
qed

lemma scheduleRounds_tracked:
  "scheduleRounds i R s = Next s' \<Longrightarrow> R + 1 \<noteq> 0 \<Longrightarrow> rpos (undefinedRound s) \<le> unat i \<Longrightarrow>
     keyedCache s \<Longrightarrow> tracked s \<Longrightarrow> tracked s'"
proof (induction i R s rule: scheduleRounds.induct)
  case (1 i R s)
  show ?case
  proof (cases "i \<le> R")
    case False
    with "1.prems" have "s' = s" by (subst (asm) scheduleRounds.simps) simp
    with "1.prems" show ?thesis by simp
  next
    case True
    with "1.prems" obtain s1 where
      a: "scheduleRound i s = Next s1" and b: "i + 1 \<noteq> 0" and
      c: "scheduleRounds (i + 1) R s1 = Next s'"
      by (subst (asm) scheduleRounds.simps) (auto split: outcome.splits if_splits)
    from rpos_le [OF True "1.prems"(2)] "1.prems"(3)
    have pos: "rpos (undefinedRound s) < rpos i" by simp
    from scheduleRound_tracked [OF a "1.prems"(5,4) pos] have t1: "tracked s1" .
    from scheduleRound_frame [OF a] have f: "hashCache s1 = hashCache s"
      "undefinedRound s1 = undefinedRound s" by auto
    from "1.prems"(4) keyedCache_cong [OF f] have k1: "keyedCache s1" by simp
    from "1.prems"(3) unat_plus1 [OF b] f have p1: "rpos (undefinedRound s1) \<le> unat (i + 1)"
      by simp
    from "1.IH" [OF True a b c "1.prems"(2) p1 k1 t1] show ?thesis .
  qed
qed

lemma handleBlock_loopInv:
  assumes a: "handleBlock env blk s = Next s'" and w: "wfEnv env" and v: "validBlock s blk"
    and i: "loopInv s"
  shows "loopInv s'"
proof -
  from i have kc: "keyedCache s" and ro: "roundsOrdered s" and tr: "tracked s"
    and fo: "finalizeOrder s" and so: "spawnOrder s" by (simp_all add: loopInv_def)
  from a obtain s2 where
    fs: "fetchSummaries env (startSummaryRound s) (hdr_Round (Header blk)) (installDummy blk s) = Some s2" and
    sr: "scheduleRounds (cachedLastRound s + 1) (hdr_Round (Header blk)) (cacheBlock blk s2) = Next s'"
    by (rule handleBlock_parts)
  define s3 where "s3 = cacheBlock blk s2"
  from fetchSummaries_frame [OF fs] have f2: "undefinedRound s2 = undefinedRound s"
    "syncingRounds s2 = syncingRounds s" "fetching s2 = fetching s"
    "outOfOrderDiffs s2 = outOfOrderDiffs s"
    by (auto simp: installDummy_def)
  then have f3: "undefinedRound s3 = undefinedRound s"
    "syncingRounds s3 = syncingRounds s" "fetching s3 = fetching s"
    "outOfOrderDiffs s3 = outOfOrderDiffs s"
    by (simp_all add: s3_def cacheBlock_def)
  have k3: "keyedCache s3" unfolding s3_def
    by (intro cacheBlock_keyedCache fetchSummaries_keyedCache [OF fs w] installDummy_keyedCache kc)
  from tr tracked_cong [OF f3] have t3: "tracked s3" by simp
  from v have r1: "hdr_Round (Header blk) + 1 \<noteq> 0"
    by (simp add: validBlock_def eq_neg_iff_add_eq_0)
  from ro f3 have p3: "rpos (undefinedRound s3) \<le> unat (cachedLastRound s + 1)"
    by (simp add: roundsOrdered_def rpos_def)
  from scheduleRounds_tracked [OF sr [folded s3_def] r1 p3 k3 t3] have t': "tracked s'" .
  from scheduleRounds_frame [OF sr [folded s3_def]] have "hashCache s' = hashCache s3"
    "undefinedRound s' = undefinedRound s3" by auto
  from k3 keyedCache_cong [OF this] have k': "keyedCache s'" by simp
  from handleBlock_frame [OF a] have c: "finalizing s' = finalizing s"
    "outOfOrderApplieds s' = outOfOrderApplieds s"
    "cachedLastRound s' = cachedLastRound s" "lastFullyAppliedRound s' = lastFullyAppliedRound s"
    "undefinedRound s' = undefinedRound s" by auto
  from handleBlock_trace [OF a] have sp: "spawned (trace s') = spawned (trace s)"
    by (auto simp: spawned_append)
  have "roundsOrdered s'" using ro roundsOrdered_cong [of s' s] c by simp
  moreover have "finalizeOrder s'" using fo finalizeOrder_cong [of s' s] c by simp
  moreover have "spawnOrder s'" using so spawnOrder_cong [of s' s] c sp by simp
  ultimately show ?thesis using k' t' by (simp add: loopInv_def)
qed

lemma worker_init_loopInv:
  assumes "worker_init env synced = Some s"
  shows "loopInv s"
proof -
  from assms obtain g where
    u: "undefinedRound s = g - 1" and
    cl: "cachedLastRound s = g - 1 \<or> (cachedLastRound s + 1 \<noteq> 0 \<and> \<not> cachedLastRound s < g)" and
    e: "lastFullyAppliedRound s = cachedLastRound s" "outOfOrderDiffs s = []"
       "outOfOrderApplieds s = []" "hashCache s = Map.empty" "fetching s = []"
       "finalizing s = []" "trace s = []"
    by (auto simp: worker_init_def Let_def defaultUndefinedRound_def eq_neg_iff_add_eq_0 [symmetric]
             split: sum.splits option.splits if_splits)
  from cl have "rpos (g - 1) \<le> rpos (cachedLastRound s)"
  proof
    assume "cachedLastRound s = g - 1"
    then show ?thesis by simp
  next
    assume "cachedLastRound s + 1 \<noteq> 0 \<and> \<not> cachedLastRound s < g"
    then show ?thesis unfolding rpos_def by unat_arith
  qed
  then have "roundsOrdered s" by (simp add: roundsOrdered_def u e)
  moreover have "keyedCache s" by (simp add: keyedCache_def e)
  moreover have "tracked s" by (simp add: tracked_def inFlightKeys_def e)
  moreover have "finalizeOrder s" by (simp add: finalizeOrder_def e)
  moreover have "spawnOrder s" by (simp add: spawnOrder_def e)
  ultimately show ?thesis by (simp add: loopInv_def)
qed

lemma reachable_loopInv:
  assumes "reachable env s" and w: "wfEnv env"
  shows "loopInv s"
  using assms(1)
proof (induction s rule: reachable_invariant)
  case (init synced s)
  then show ?case by (rule worker_init_loopInv)
next
  case (drain_apply s s')
  from applyDiff_loopInv [OF drain_apply(3,2,4)] show ?case .
next
  case (drain_finalize s s')
  from spawnFinalize_loopInv(1) [OF drain_finalize(4,3,5)] show ?case .
next
  case (select s ev s')
  from select(3) show ?case
  proof (cases rule: selectEvent_cases)
    case (pruned prunedBlk)
    from handlePruned_loopInv [OF pruned(2) select(4)] show ?thesis .
  next
    case (block blk)
    with select(2) have "validBlock s blk" by simp
    from handleBlock_loopInv [OF block(2) w this select(4)] show ?thesis .
  next
    case (diff n fe task item)
    from handleDiff_loopInv [OF diff(6,2,3,4) select(4)] show ?thesis .
  next
    case (finalized n summary)
    from handleFinalized_loopInv [OF finalized(3,2) select(4)] show ?thesis .
  qed
qed

section \<open>Finalizing one round at a time\<close>

lemma completed_append: "completed (a @ b) = completed a @ completed b"
  by (induction a rule: completed.induct) simp_all

lemma completed_map [simp]:
  "completed (map CallGetBlock rs) = []" "completed (map SubmitFetch ts) = []"
  by (induction rs, simp_all) (induction ts, simp_all)

lemma applyDiff_finalizing:
  "applyDiff env s = Next s' \<Longrightarrow>
     spawned (trace s') = spawned (trace s) \<and> completed (trace s') = completed (trace s) \<and>
     finalizing s' = finalizing s"
  by (auto simp: applyDiff_def roundSynced_def applyWriteLog_def Let_def spawned_append
                 completed_append split: option.splits if_splits)

lemma spawnFinalize_finalizing:
  assumes "spawnFinalize s = Next s'"
  shows "spawned (trace s') = spawned (trace s) @ [outOfOrderApplieds s ! 0] \<and>
         completed (trace s') = completed (trace s) \<and>
         finalizing s' = finalizing s @ [outOfOrderApplieds s ! 0]"
proof -
  from assms obtain h q where p: "heap_Pop Round (outOfOrderApplieds s) = Some (h, q)"
    by (auto simp: spawnFinalize_def split: option.splits)
  from heap_Pop_Some [OF p] have "h = outOfOrderApplieds s ! 0" by simp
  with assms p show ?thesis
    by (auto simp: spawnFinalize_def spawned_append completed_append)
qed

lemma handleFinalized_completes:
  assumes a: "handleFinalized env f (s\<lparr>finalizing := remove1 f (finalizing s)\<rparr>) = Next s'"
    and m: "f \<in> set (finalizing s)" and i: "loopInv s"
  shows "finalizing s = [f] \<and> finalizing s' = [] \<and> cachedLastRound s' = Round f \<and>
         Round f = cachedLastRound s + 1 \<and>
         completed (trace s') = completed (trace s) @ [Round f] \<and>
         spawned (trace s') = spawned (trace s)"
proof -
  from i have fo: "finalizeOrder s" by (simp add: loopInv_def)
  note od = finalizeOrderD(1) [OF fo] and fin = finalizeOrderD(3) [OF fo]
  from od have "distinct (map Round (finalizing s))" by simp
  from same_key_single [OF this m fin] have fs: "finalizing s = [f]" .
  from fin m have rf: "Round f = cachedLastRound s + 1" by simp
  from a have "finalizing s' = []" "cachedLastRound s' = Round f"
    "completed (trace s') = completed (trace s) @ [Round f]"
    "spawned (trace s') = spawned (trace s)"
    by (auto simp: handleFinalized_def Let_def spawned_append completed_append fs split: if_splits)
  with fs rf show ?thesis by simp
qed

lemma selectEvent_finalizing:
  assumes "selectEvent env s ev = Next s'" and "\<forall>n. ev \<noteq> EvFinalized n"
  shows "spawned (trace s') = spawned (trace s) \<and> completed (trace s') = completed (trace s) \<and>
         finalizing s' = finalizing s \<and> cachedLastRound s' = cachedLastRound s"
  using assms(1)
proof (cases rule: selectEvent_cases)
  case (pruned prunedBlk)
  then show ?thesis
    by (auto simp: handlePruned_def Let_def spawned_append completed_append split: if_splits)
next
  case (block blk)
  from handleBlock_trace [OF block(2)] handleBlock_frame [OF block(2)] show ?thesis
    by (auto simp: spawned_append completed_append)
next
  case (diff n fe task item)
  then show ?thesis
    by (auto simp: handleDiff_def Let_def spawned_append completed_append
             split: if_splits option.splits)
next
  case (finalized n summary)
  with assms(2) show ?thesis by simp
qed

lemma reachable_completions:
  assumes "reachable env s" and w: "wfEnv env"
  shows "map Round (spawned (trace s)) = completed (trace s) @ map Round (finalizing s)"
  using assms(1)
proof (induction s rule: reachable_invariant)
  case (init synced s)
  then show ?case
    by (auto simp: worker_init_def Let_def split: sum.splits option.splits)
next
  case (drain_apply s s')
  with applyDiff_finalizing [OF drain_apply(3)] show ?case by simp
next
  case (drain_finalize s s')
  with spawnFinalize_finalizing [OF drain_finalize(4)] show ?case by simp
next
  case (select s ev s')
  show ?case
  proof (cases "\<exists>n. ev = EvFinalized n")
    case False
    with selectEvent_finalizing [OF select(3)] select(4) show ?thesis by simp
  next
    case True
    from select(3) show ?thesis
    proof (cases rule: selectEvent_cases)
      case (finalized n summary)
      from reachable_loopInv [OF select(1) w] have "loopInv s" .
      from handleFinalized_completes [OF finalized(3,2) this] select(4) show ?thesis by simp
    qed (use True in auto)
  qed
qed

text \<open>
  Claim C2. In every reachable state at most one finalize is in flight. The finalize
  goroutines are started for consecutive rounds, and the rounds they were started for
  are the rounds of the completions received followed by the round of the one in flight:
  each finalize has completed before the next one is started. A pass starts a finalize
  only for the head of the applieds queue, only when its round is \<open>cachedLastRound + 1\<close>
  and no finalize is in flight, and leaves \<open>cachedLastRound\<close> as it is. A pass changes
  \<open>cachedLastRound\<close> only by receiving the completion of the finalize in flight, and
  then sets it to the round of that finalize, one higher than before. \<open>GetBlock\<close> is
  taken to answer with the block of the round asked for.
\<close>

theorem finalize_one_at_a_time:
  assumes "reachable env s" and "wfEnv env"
  shows "length (finalizing s) \<le> 1 \<and>
         successively (\<lambda>a b. b = a + 1) (map Round (spawned (trace s))) \<and>
         map Round (spawned (trace s)) = completed (trace s) @ map Round (finalizing s) \<and>
         (\<forall>ev s'. mainLoop_iter env s ev = Next s' \<longrightarrow>
            (spawned (trace s') \<noteq> spawned (trace s) \<longrightarrow>
               finalizeGuard s \<and> finalizing s = [] \<and>
               spawned (trace s') = spawned (trace s) @ [outOfOrderApplieds s ! 0] \<and>
               Round (outOfOrderApplieds s ! 0) = cachedLastRound s + 1 \<and>
               cachedLastRound s' = cachedLastRound s) \<and>
            (cachedLastRound s' \<noteq> cachedLastRound s \<longrightarrow>
               (\<exists>n. ev = EvFinalized n) \<and> \<not> finalizeGuard s \<and>
               map Round (finalizing s) = [cachedLastRound s'] \<and> finalizing s' = [] \<and>
               cachedLastRound s' = cachedLastRound s + 1 \<and>
               completed (trace s') = completed (trace s) @ [cachedLastRound s']))"
proof -
  from reachable_loopInv [OF assms] have inv: "loopInv s" .
  then have fo: "finalizeOrder s" and so: "spawnOrder s" by (simp_all add: loopInv_def)
  have one: "length (finalizing s) \<le> 1"
  proof (cases "finalizing s")
    case Nil
    then show ?thesis by simp
  next
    case (Cons f fs)
    then have m: "f \<in> set (finalizing s)" by simp
    from finalizeOrderD(1) [OF fo] have "distinct (map Round (finalizing s))" by simp
    from same_key_single [OF this m finalizeOrderD(3) [OF fo]] show ?thesis by simp
  qed
  from so have suc: "successively (\<lambda>a b. b = a + 1) (map Round (spawned (trace s)))"
    by (simp add: spawnOrder_def)
  note comp = reachable_completions [OF assms]
  have step: "(spawned (trace s') \<noteq> spawned (trace s) \<longrightarrow>
               finalizeGuard s \<and> finalizing s = [] \<and>
               spawned (trace s') = spawned (trace s) @ [outOfOrderApplieds s ! 0] \<and>
               Round (outOfOrderApplieds s ! 0) = cachedLastRound s + 1 \<and>
               cachedLastRound s' = cachedLastRound s) \<and>
            (cachedLastRound s' \<noteq> cachedLastRound s \<longrightarrow>
               (\<exists>n. ev = EvFinalized n) \<and> \<not> finalizeGuard s \<and>
               map Round (finalizing s) = [cachedLastRound s'] \<and> finalizing s' = [] \<and>
               cachedLastRound s' = cachedLastRound s + 1 \<and>
               completed (trace s') = completed (trace s) @ [cachedLastRound s'])"
    if it: "mainLoop_iter env s ev = Next s'" for ev s'
  proof -
    from it consider
      (a) "applyGuard s" "applyDiff env s = Next s'"
    | (f) "\<not> applyGuard s" "finalizeGuard s" "spawnFinalize s = Next s'"
    | (e) "\<not> applyGuard s" "\<not> finalizeGuard s" "selectEvent env s ev = Next s'"
      by (auto simp: mainLoop_iter_def split: if_splits)
    then show ?thesis
    proof cases
      case a
      from applyDiff_finalizing [OF a(2)] applyDiff_rounds [OF a(2)] show ?thesis by simp
    next
      case f
      from spawnFinalize_loopInv(2) [OF f(3,2) inv] have "finalizing s = []" .
      moreover from f(2) have "Round (outOfOrderApplieds s ! 0) = cachedLastRound s + 1"
        by (simp add: finalizeGuard_def)
      ultimately show ?thesis
        using spawnFinalize_finalizing [OF f(3)] spawnFinalize_rounds [OF f(3)] f(2) by simp
    next
      case e
      show ?thesis
      proof (cases "\<exists>n. ev = EvFinalized n")
        case False
        with selectEvent_finalizing [OF e(3)] show ?thesis by simp
      next
        case True
        from e(3) show ?thesis
        proof (cases rule: selectEvent_cases)
          case (finalized n summary)
          from handleFinalized_completes [OF finalized(3,2) inv] e(2) True show ?thesis by simp
        qed (use True in auto)
      qed
    qed
  qed
  from one suc comp step show ?thesis by blast
qed

lemma exEnv_wfEnv: "wfEnv (exEnv g)"
  by (simp add: wfEnv_def exEnv_def exBlock_def)

lemma exApplied_reachable: "reachable (exEnv 0) exApplied"
proof -
  let ?evs = "[EvBlock (exBlock 1), EvDiff 0 exFetch, EvDiff 0 exFetch, EvDiff 0 exFetch,
               EvDiff 0 exFetch]"
  have "exRun 0 None ?evs \<noteq> None" by code_simp
  moreover have "\<forall>ev\<in>set ?evs. validEvent (exState 0 None []) ev" by code_simp
  ultimately show ?thesis unfolding exApplied_def by (rule exState_reachable)
qed

lemma exCompleted_step:
  "mainLoop_iter (exEnv 0) exApplied (EvFinalized 0) = Next exCompleted"
proof -
  have "stateOf (mainLoop_iter (exEnv 0) exApplied (EvFinalized 0)) =
        stateOf (selectEvent (exEnv 0) exApplied (EvFinalized 0))" by code_simp
  moreover have "stateOf (selectEvent (exEnv 0) exApplied (EvFinalized 0)) \<noteq> None"
    by code_simp
  ultimately show ?thesis by (auto simp: exCompleted_def stateOf_Some)
qed

theorem finalize_one_at_a_time_witness:
  "reachable (exEnv 0) exApplied \<and> wfEnv (exEnv 0) \<and>
   length (finalizing exApplied) = 1 \<and>
   map Round (spawned (trace exApplied)) = [0] \<and> completed (trace exApplied) = [] \<and>
   map Round (finalizing exApplied) = [0] \<and>
   mainLoop_iter (exEnv 0) exApplied (EvFinalized 0) = Next exCompleted \<and>
   cachedLastRound exApplied = - 1 \<and> cachedLastRound exCompleted = 0 \<and>
   finalizing exCompleted = [] \<and> completed (trace exCompleted) = [0] \<and>
   reachable (exEnv 0) exCompleted \<and>
   (\<exists>s'. mainLoop_iter (exEnv 0) exCompleted EvDone = Next s' \<and>
         map Round (spawned (trace s')) = [0, 1] \<and>
         finalizeGuard exCompleted \<and>
         spawned (trace s') = spawned (trace exCompleted) @ [outOfOrderApplieds exCompleted ! 0] \<and>
         Round (outOfOrderApplieds exCompleted ! 0) = cachedLastRound exCompleted + 1 \<and>
         cachedLastRound s' = cachedLastRound exCompleted)"
proof -
  note r1 = exApplied_reachable and w = exEnv_wfEnv [of 0] and st = exCompleted_step
  have r2: "reachable (exEnv 0) exCompleted" by (rule reach_iter [OF r1 _ st]) simp
  have a: "map Round (spawned (trace exApplied)) = [0]" "completed (trace exApplied) = []"
    "map Round (finalizing exApplied) = [0]" "cachedLastRound exApplied = - 1"
    by code_simp+
  have c: "cachedLastRound exCompleted = 0" "map Round (spawned (trace exCompleted)) = [0]"
    by code_simp+
  have "map_option (\<lambda>s. map Round (spawned (trace s)))
          (stateOf (mainLoop_iter (exEnv 0) exCompleted EvDone)) = Some [0, 1]" by code_simp
  then obtain s' where
    it: "mainLoop_iter (exEnv 0) exCompleted EvDone = Next s'" and
    sp: "map Round (spawned (trace s')) = [0, 1]"
    by (auto simp: stateOf_Some)
  from sp c(2) have ne: "spawned (trace s') \<noteq> spawned (trace exCompleted)" by auto
  from a(3) have l: "length (finalizing exApplied) = 1"
    by (metis length_map length_Cons list.size(3) One_nat_def)
  from finalize_one_at_a_time [OF r1 w] finalize_one_at_a_time [OF r2 w] st it ne a c sp l
  show ?thesis by (auto simp: r1 r2 w)
qed

section \<open>The entries of a round in the queues\<close>

text \<open>
  Claim C7, as stated, fails for the diffs queue. In the run \<open>exPair\<close> the IO diff and
  the state diff of round 1 are both fetched while round 0 is still missing: the diffs queue
  holds two entries of round 1.
\<close>

theorem diffs_two_per_round:
  "reachable (exEnv 0) exPair \<and> wfEnv (exEnv 0) \<and>
   map d_round (outOfOrderDiffs exPair) = [1, 1] \<and>
   map d_fetchMask (outOfOrderDiffs exPair) = [maskIO, maskState] \<and>
   \<not> distinct (map d_round (outOfOrderDiffs exPair))"
proof -
  let ?evs = "[EvBlock (exBlock 1), EvDiff 2 exFetch, EvDiff 2 exFetch]"
  have "exRun 0 None ?evs \<noteq> None" by code_simp
  moreover have "\<forall>ev\<in>set ?evs. validEvent (exState 0 None []) ev" by code_simp
  ultimately have r: "reachable (exEnv 0) exPair" unfolding exPair_def by (rule exState_reachable)
  have d: "map d_round (outOfOrderDiffs exPair) = [1, 1]" by code_simp
  have m: "map d_fetchMask (outOfOrderDiffs exPair) = [maskIO, maskState]" by code_simp
  show ?thesis by (simp add: r d m exEnv_wfEnv)
qed

lemma two_keys:
  assumes "distinct (map g xs)" and "\<forall>x\<in>set xs. g x = a \<or> g x = b"
  shows "length xs \<le> 2"
proof -
  have "length xs = length (map g xs)" by simp
  also have "\<dots> = card (set (map g xs))" using assms(1) by (simp only: distinct_card)
  also have "\<dots> \<le> card {a, b}" using assms(2) by (intro card_mono) auto
  also have "\<dots> \<le> 2" by (simp add: card_insert_if)
  finally show ?thesis .
qed

text \<open>
  Claim C7, amended. In every reachable state the applieds queue holds at most one
  entry of any round, and the diffs queue holds at most one entry of any round and
  subtree; every entry is for the IO subtree or the state subtree, so the diffs queue
  holds at most two entries of any round. \<open>GetBlock\<close> is taken to answer with the block of
  the round asked for.
\<close>

theorem queue_entries_per_round:
  assumes "reachable env s" and "wfEnv env"
  shows "distinct (map Round (outOfOrderApplieds s)) \<and>
         distinct (map diffKey (outOfOrderDiffs s)) \<and>
         (\<forall>d\<in>set (outOfOrderDiffs s). d_fetchMask d = maskIO \<or> d_fetchMask d = maskState) \<and>
         (\<forall>r. length (filter (\<lambda>d. d_round d = r) (outOfOrderDiffs s)) \<le> 2)"
proof -
  from reachable_loopInv [OF assms] have fo: "finalizeOrder s" and tr: "tracked s"
    by (simp_all add: loopInv_def)
  from finalizeOrderD(1) [OF fo] have a: "distinct (map Round (outOfOrderApplieds s))" by simp
  from tr have dk: "distinct (map diffKey (outOfOrderDiffs s))"
    and tk: "\<forall>k\<in>set (map diffKey (outOfOrderDiffs s)).
               trackedKey (undefinedRound s) (syncingRounds s) k"
    by (simp_all add: tracked_def inFlightKeys_def)
  have mk: "\<forall>d\<in>set (outOfOrderDiffs s). d_fetchMask d = maskIO \<or> d_fetchMask d = maskState"
  proof
    fix d
    assume "d \<in> set (outOfOrderDiffs s)"
    with tk have "trackedKey (undefinedRound s) (syncingRounds s) (diffKey d)" by simp
    then show "d_fetchMask d = maskIO \<or> d_fetchMask d = maskState"
      by (simp add: trackedKey_def diffKey_def)
  qed
  have two: "length (filter (\<lambda>d. d_round d = r) (outOfOrderDiffs s)) \<le> 2" for r
  proof (rule two_keys [of diffKey _ "(r, maskIO)" "(r, maskState)"])
    from dk show "distinct (map diffKey (filter (\<lambda>d. d_round d = r) (outOfOrderDiffs s)))"
      by (rule distinct_map_filter)
    from mk show "\<forall>x\<in>set (filter (\<lambda>d. d_round d = r) (outOfOrderDiffs s)).
          diffKey x = (r, maskIO) \<or> diffKey x = (r, maskState)"
      by (auto simp: diffKey_def)
  qed
  from a dk mk two show ?thesis by blast
qed

theorem queue_entries_per_round_witness:
  "reachable (exEnv 0) exBusy \<and> wfEnv (exEnv 0) \<and>
   map Round (outOfOrderApplieds exBusy) = [1] \<and>
   map diffKey (outOfOrderDiffs exBusy) = [(3, maskIO), (3, maskState)] \<and>
   distinct (map Round (outOfOrderApplieds exBusy)) \<and>
   distinct (map diffKey (outOfOrderDiffs exBusy)) \<and>
   length (filter (\<lambda>d. d_round d = 3) (outOfOrderDiffs exBusy)) = 2"
proof -
  let ?evs = "[EvBlock (exBlock 3), EvDiff 0 exFetch, EvDiff 0 exFetch, EvDiff 0 exFetch,
               EvDiff 0 exFetch, EvDiff 2 exFetch, EvDiff 2 exFetch]"
  have "exRun 0 None ?evs \<noteq> None" by code_simp
  moreover have "\<forall>ev\<in>set ?evs. validEvent (exState 0 None []) ev" by code_simp
  ultimately have r: "reachable (exEnv 0) exBusy" unfolding exBusy_def by (rule exState_reachable)
  note w = exEnv_wfEnv [of 0]
  have a: "map Round (outOfOrderApplieds exBusy) = [1]" by code_simp
  have d: "map diffKey (outOfOrderDiffs exBusy) = [(3, maskIO), (3, maskState)]" by code_simp
  have l: "length (filter (\<lambda>d. d_round d = 3) (outOfOrderDiffs exBusy)) = 2" by code_simp
  from queue_entries_per_round [OF r w] a d l show ?thesis by (simp add: r w)
qed

section \<open>The diffs popped for a round\<close>

lemma mask_other:
  "m = maskIO \<or> m = maskState \<Longrightarrow> m' = maskIO \<or> m' = maskState \<Longrightarrow> m \<noteq> m' \<Longrightarrow> m AND m' = 0"
  by (auto simp: maskIO_def maskState_def)

lemma mask_clear_self: "((a::outstandingMask) AND NOT m) AND m = 0"
  by (auto simp: bit_eq_iff bit_and_iff bit_not_iff)

lemma mask_clear_other: "(a::outstandingMask) AND k = 0 \<Longrightarrow> (a AND NOT m) AND k = 0"
  by (auto simp: bit_eq_iff bit_and_iff bit_not_iff)

lemma mask_set_other:
  "(a::outstandingMask) AND k = 0 \<Longrightarrow> m AND k = 0 \<Longrightarrow> (a OR m) AND k = 0"
  by (auto simp: bit_eq_iff bit_and_iff bit_or_iff)

lemma mask_not_retry:
  "(a::outstandingMask) AND b = 0 \<Longrightarrow> a AND m = m \<Longrightarrow> b AND m = 0"
  by (auto simp: bit_eq_iff bit_and_iff)

lemma doneKey_clear:
  assumes "doneKey l sr k" and "sr r = Some f"
    and "outstanding f' = outstanding f AND NOT m" and "awaitingRetry f' = awaitingRetry f"
  shows "doneKey l (sr(r \<mapsto> f')) k"
proof (cases "fst k = r")
  case False
  with assms(1) show ?thesis by (simp add: doneKey_def)
next
  case True
  with assms show ?thesis by (auto simp: doneKey_def mask_clear_other)
qed

lemma doneKey_popped:
  assumes "m = maskIO \<or> m = maskState"
    and "outstanding f AND awaitingRetry f = 0" and "outstanding f AND m = m"
    and "outstanding f' = outstanding f AND NOT m" and "awaitingRetry f' = awaitingRetry f"
  shows "doneKey l (sr(r \<mapsto> f')) (r, m)"
  using assms mask_not_retry [of "outstanding f" "awaitingRetry f" m]
  by (simp add: doneKey_def mask_clear_self)

lemma doneKey_complete:
  assumes "doneKey l sr k" and "rpos l \<le> rpos r"
  shows "doneKey r (sr(r := None)) k"
proof (cases "fst k = r")
  case True
  with assms(1) show ?thesis by (simp add: doneKey_def)
next
  case False
  with assms show ?thesis by (auto simp: doneKey_def)
qed

lemma doneKey_retry:
  assumes d: "doneKey l sr k" and sf: "sr r = Some f"
    and mm: "m = maskIO \<or> m = maskState" and om: "outstanding f AND m = m"
    and o': "outstanding f' = outstanding f AND NOT m"
    and r': "awaitingRetry f' = awaitingRetry f OR m"
  shows "doneKey l (sr(r \<mapsto> f')) k"
proof (cases "fst k = r \<and> \<not> rpos (fst k) \<le> rpos l")
  case False
  with d show ?thesis by (auto simp: doneKey_def)
next
  case True
  with d sf have mk: "snd k = maskIO \<or> snd k = maskState"
    and z: "outstanding f AND snd k = 0" "awaitingRetry f AND snd k = 0"
    by (auto simp: doneKey_def)
  from z(1) om mask_nonzero [OF mm] have "m \<noteq> snd k" by auto
  from mask_other [OF mm mk this] have mz: "m AND snd k = 0" .
  from True mk z mz show ?thesis
    by (simp add: doneKey_def o' r' mask_clear_other mask_set_other)
qed

lemma doneKey_schedule:
  assumes d: "doneKey l sr k" and sf: "sr i = Some f"
    and mm: "m = maskIO \<or> m = maskState" and rm: "awaitingRetry f AND m \<noteq> 0"
    and o': "outstanding f' = outstanding f OR m"
    and r': "awaitingRetry f' = awaitingRetry f AND NOT m"
  shows "doneKey l (sr(i \<mapsto> f')) k"
proof (cases "fst k = i \<and> \<not> rpos (fst k) \<le> rpos l")
  case False
  with d show ?thesis by (auto simp: doneKey_def)
next
  case True
  with d sf have mk: "snd k = maskIO \<or> snd k = maskState"
    and z: "outstanding f AND snd k = 0" "awaitingRetry f AND snd k = 0"
    by (auto simp: doneKey_def)
  from z(2) rm have "m \<noteq> snd k" by auto
  from mask_other [OF mm mk this] have mz: "m AND snd k = 0" .
  from True mk z mz show ?thesis
    by (simp add: doneKey_def o' r' mask_clear_other mask_set_other)
qed

lemma doneKey_create:
  assumes "doneKey l sr k" and "sr i = None"
  shows "doneKey l (sr(i \<mapsto> f')) k"
  using assms by (auto simp: doneKey_def)

lemma popDone_cong:
  "popped (trace s') = popped (trace s) \<Longrightarrow> lastFullyAppliedRound s' = lastFullyAppliedRound s \<Longrightarrow>
   syncingRounds s' = syncingRounds s \<Longrightarrow> popDone s' = popDone s"
  by (simp add: popDone_def)

lemma applyDiff_popDone:
  assumes a: "applyDiff env s = Next s'" and g: "applyGuard s" and i: "loopInv s"
    and dj: "disjointMasks (syncingRounds s)" and pd: "popDone s"
  shows "popDone s'"
proof -
  from a obtain d q where p: "heap_Pop d_round (outOfOrderDiffs s) = Some (d, q)"
    by (auto simp: applyDiff_def split: option.splits)
  from heap_Pop_Some [OF p] have d0: "d = outOfOrderDiffs s ! 0"
    and ms: "mset (outOfOrderDiffs s) = add_mset d (mset q)" by auto
  define r where "r = d_round d"
  define m where "m = d_fetchMask d"
  have key: "diffKey d = (r, m)" by (simp add: diffKey_def r_def m_def)
  from g d0 have gr: "r = lastFullyAppliedRound s + 1" by (simp add: applyGuard_def r_def)
  from i have tr: "tracked s" by (simp add: loopInv_def)
  from ms have "d \<in> set (outOfOrderDiffs s)" using set_mset_eq by fastforce
  with tr have "trackedKey (undefinedRound s) (syncingRounds s) (r, m)"
    by (auto simp: tracked_def inFlightKeys_def key [symmetric])
  then obtain f where mm: "m = maskIO \<or> m = maskState"
    and rp: "rpos (undefinedRound s) < rpos r"
    and sf: "syncingRounds s r = Some f" and om: "outstanding f AND m = m"
    by (auto simp: trackedKey_def)
  have pl: "rpos r = Suc (rpos (lastFullyAppliedRound s))"
    using rpos_Suc [of "lastFullyAppliedRound s"] rp gr by simp
  from dj sf have df: "outstanding f AND awaitingRetry f = 0" by (rule disjointMasks_get)
  from pd have od: "distinct (map diffKey (popped (trace s)))"
    and ok: "\<forall>k\<in>set (map diffKey (popped (trace s))).
               doneKey (lastFullyAppliedRound s) (syncingRounds s) k"
    by (simp_all add: popDone_def)
  have new: "(r, m) \<notin> set (map diffKey (popped (trace s)))"
  proof
    assume "(r, m) \<in> set (map diffKey (popped (trace s)))"
    with ok have "doneKey (lastFullyAppliedRound s) (syncingRounds s) (r, m)" by blast
    with pl sf have "outstanding f AND m = 0" by (simp add: doneKey_def)
    with om mask_nonzero [OF mm] show False by simp
  qed
  from applyDiff_pops [OF a] d0 have pp: "popped (trace s') = popped (trace s) @ [d]" by simp
  with od new have d': "distinct (map diffKey (popped (trace s')))" by (simp add: key)
  define f' where "f' = f\<lparr>outstanding := outstanding f AND NOT m\<rparr>"
  define s1 where "s1 = applyWriteLog env d (s\<lparr>outOfOrderDiffs := q, trace := trace s @ [PopDiff d]\<rparr>)"
  have s1f: "lastFullyAppliedRound s1 = lastFullyAppliedRound s"
    "syncingRounds s1 = syncingRounds s" "hashCache s1 = hashCache s"
    by (simp_all add: s1_def applyWriteLog_def Let_def)
  from a p have rs: "roundSynced d s1 = Next s'" by (simp add: applyDiff_def s1_def)
  have k': "\<forall>k\<in>set (map diffKey (popped (trace s'))).
               doneKey (lastFullyAppliedRound s') (syncingRounds s') k"
  proof (cases "outstanding f' = maskNone \<and> awaitingRetry f' = maskNone")
    case False
    with rs sf have e: "syncingRounds s' = (syncingRounds s)(r \<mapsto> f')"
      "lastFullyAppliedRound s' = lastFullyAppliedRound s"
      by (auto simp: roundSynced_def Let_def r_def [symmetric] m_def [symmetric] f'_def s1f)
    have n: "doneKey (lastFullyAppliedRound s) ((syncingRounds s)(r \<mapsto> f')) (r, m)"
      by (rule doneKey_popped [OF mm df om]) (simp_all add: f'_def)
    have o: "doneKey (lastFullyAppliedRound s) ((syncingRounds s)(r \<mapsto> f')) k"
      if "k \<in> set (map diffKey (popped (trace s)))" for k
    proof -
      from that ok have "doneKey (lastFullyAppliedRound s) (syncingRounds s) k" by blast
      from doneKey_clear [OF this sf, of f' m] show ?thesis by (simp add: f'_def)
    qed
    show ?thesis
    proof
      fix k
      assume "k \<in> set (map diffKey (popped (trace s')))"
      then have "k = (r, m) \<or> k \<in> set (map diffKey (popped (trace s)))"
        by (auto simp: pp key)
      then show "doneKey (lastFullyAppliedRound s') (syncingRounds s') k"
        unfolding e using n o by blast
    qed
  next
    case True
    with rs sf have e: "syncingRounds s' = (syncingRounds s)(r := None)"
      "lastFullyAppliedRound s' = r"
      by (auto simp: roundSynced_def Let_def r_def [symmetric] m_def [symmetric] f'_def s1f
               split: option.splits)
    from mm have n: "doneKey r ((syncingRounds s)(r := None)) (r, m)" by (simp add: doneKey_def)
    from pl have le: "rpos (lastFullyAppliedRound s) \<le> rpos r" by simp
    have o: "doneKey r ((syncingRounds s)(r := None)) k"
      if "k \<in> set (map diffKey (popped (trace s)))" for k
    proof -
      from that ok have "doneKey (lastFullyAppliedRound s) (syncingRounds s) k" by blast
      from doneKey_complete [OF this le] show ?thesis .
    qed
    show ?thesis
    proof
      fix k
      assume "k \<in> set (map diffKey (popped (trace s')))"
      then have "k = (r, m) \<or> k \<in> set (map diffKey (popped (trace s)))"
        by (auto simp: pp key)
      then show "doneKey (lastFullyAppliedRound s') (syncingRounds s') k"
        unfolding e using n o by blast
    qed
  qed
  from d' k' show ?thesis by (simp add: popDone_def)
qed

lemma handleDiff_popDone:
  assumes a: "handleDiff item (s\<lparr>fetching := remove1 task (fetching s)\<rparr>) = Next s'"
    and m: "task \<in> set (fetching s)"
    and k: "d_round item = t_round task" "d_fetchMask item = t_fetchMask task"
    and i: "loopInv s" and pd: "popDone s"
  shows "popDone s'"
proof -
  define r where "r = d_round item"
  define mk where "mk = d_fetchMask item"
  from a have c: "popped (trace s') = popped (trace s)"
    "lastFullyAppliedRound s' = lastFullyAppliedRound s"
    by (auto simp: handleDiff_def Let_def popped_append split: if_splits option.splits)
  show ?thesis
  proof (cases "d_err item")
    case None
    with a have "syncingRounds s' = syncingRounds s" by (auto simp: handleDiff_def)
    with pd popDone_cong [OF c] show ?thesis by simp
  next
    case (Some err)
    from i have tr: "tracked s" by (simp add: loopInv_def)
    from m k have "(r, mk) \<in> set (map taskKey (fetching s))"
      by (force simp: taskKey_def r_def mk_def)
    with tr have "trackedKey (undefinedRound s) (syncingRounds s) (r, mk)"
      by (auto simp: tracked_def inFlightKeys_def)
    then obtain f where mm: "mk = maskIO \<or> mk = maskState"
      and sf: "syncingRounds s r = Some f" and om: "outstanding f AND mk = mk"
      by (auto simp: trackedKey_def)
    define f' where "f' = f\<lparr> outstanding := outstanding f AND NOT mk,
                              awaitingRetry := awaitingRetry f OR mk \<rparr>"
    from a Some sf have e: "syncingRounds s' = (syncingRounds s)(r \<mapsto> f')"
      by (auto simp: handleDiff_def Let_def r_def [symmetric] mk_def [symmetric] f'_def)
    have "doneKey (lastFullyAppliedRound s) ((syncingRounds s)(r \<mapsto> f')) k"
      if "doneKey (lastFullyAppliedRound s) (syncingRounds s) k" for k
      using doneKey_retry [OF that sf mm om, of f'] by (simp add: f'_def)
    with pd show ?thesis by (simp add: popDone_def c e)
  qed
qed

lemma scheduleMask_doneKey:
  assumes "doneKey l (syncingRounds s) k" and mm: "m = maskIO \<or> m = maskState"
  shows "doneKey l (syncingRounds (scheduleMask i m task s)) k"
proof (cases "syncingRounds s i")
  case None
  with assms(1) show ?thesis by (simp add: scheduleMask_def)
next
  case (Some f)
  show ?thesis
  proof (cases "outstanding f AND m = 0 \<and> awaitingRetry f AND m \<noteq> 0")
    case False
    with Some have "scheduleMask i m task s = s" by (auto simp: scheduleMask_def)
    with assms(1) show ?thesis by simp
  next
    case True
    define f' where "f' = f\<lparr> outstanding := outstanding f OR m,
                              awaitingRetry := awaitingRetry f AND NOT m \<rparr>"
    from Some True have e: "syncingRounds (scheduleMask i m task s) = (syncingRounds s)(i \<mapsto> f')"
      by (simp add: scheduleMask_def submitFetch_def f'_def)
    from True have rm: "awaitingRetry f AND m \<noteq> 0" by simp
    from doneKey_schedule [OF assms(1) Some mm rm, of f'] show ?thesis by (simp add: e f'_def)
  qed
qed

lemma scheduleRound_doneKey:
  assumes a: "scheduleRound i s = Next s'" and d: "doneKey l (syncingRounds s) k"
  shows "doneKey l (syncingRounds s') k"
proof (cases "s' = s")
  case True
  with d show ?thesis by simp
next
  case False
  define s1 where "s1 = (if syncingRounds s i = None
                  then s\<lparr>syncingRounds := (syncingRounds s)(i \<mapsto>
                           \<lparr> outstanding = maskNone, awaitingRetry = maskAll \<rparr>)\<rparr>
                  else s)"
  have d1: "doneKey l (syncingRounds s1) k"
  proof (cases "syncingRounds s i")
    case None
    with doneKey_create [OF d None] show ?thesis by (simp add: s1_def)
  next
    case (Some f)
    with d show ?thesis by (simp add: s1_def)
  qed
  from a False obtain ta tb where
    g: "s' = scheduleMask i maskState tb (scheduleMask i maskIO ta s1)"
    by (auto simp: scheduleRound_def Let_def s1_def [symmetric] split: if_splits option.splits)
  have "doneKey l (syncingRounds (scheduleMask i maskIO ta s1)) k"
    by (rule scheduleMask_doneKey [OF d1]) simp
  then show ?thesis unfolding g by (rule scheduleMask_doneKey) simp
qed

lemma scheduleRounds_doneKey:
  "scheduleRounds i R s = Next s' \<Longrightarrow> doneKey l (syncingRounds s) k \<Longrightarrow>
     doneKey l (syncingRounds s') k"
proof (induction i R s rule: scheduleRounds.induct)
  case (1 i R s)
  show ?case
  proof (cases "i \<le> R")
    case False
    with "1.prems"(1) have "s' = s" by (subst (asm) scheduleRounds.simps) simp
    with "1.prems"(2) show ?thesis by simp
  next
    case True
    with "1.prems"(1) obtain s1 where
      a: "scheduleRound i s = Next s1" and b: "i + 1 \<noteq> 0" and
      c: "scheduleRounds (i + 1) R s1 = Next s'"
      by (subst (asm) scheduleRounds.simps) (auto split: outcome.splits if_splits)
    from "1.IH" [OF True a b c] scheduleRound_doneKey [OF a "1.prems"(2)] show ?thesis .
  qed
qed

lemma handleBlock_popDone:
  assumes a: "handleBlock env blk s = Next s'" and pd: "popDone s"
  shows "popDone s'"
proof -
  from a obtain s2 where
    fs: "fetchSummaries env (startSummaryRound s) (hdr_Round (Header blk)) (installDummy blk s) = Some s2" and
    sr: "scheduleRounds (cachedLastRound s + 1) (hdr_Round (Header blk)) (cacheBlock blk s2) = Next s'"
    by (rule handleBlock_parts)
  from fetchSummaries_frame [OF fs] have f3: "syncingRounds (cacheBlock blk s2) = syncingRounds s"
    by (auto simp: cacheBlock_def installDummy_def)
  from handleBlock_trace [OF a] have pp: "popped (trace s') = popped (trace s)"
    by (auto simp: popped_append)
  from handleBlock_frame [OF a] have lf: "lastFullyAppliedRound s' = lastFullyAppliedRound s"
    by auto
  have "doneKey (lastFullyAppliedRound s) (syncingRounds s') k"
    if "doneKey (lastFullyAppliedRound s) (syncingRounds s) k" for k
    using scheduleRounds_doneKey [OF sr] that by (simp add: f3)
  with pd show ?thesis by (simp add: popDone_def pp lf)
qed

lemma reachable_popDone:
  assumes "reachable env s" and w: "wfEnv env"
  shows "popDone s \<and> disjointMasks (syncingRounds s)"
  using assms(1)
proof (induction s rule: reachable_invariant)
  case (init synced s)
  then show ?case
    by (auto simp: worker_init_def Let_def popDone_def disjointMasks_def
             split: sum.splits option.splits)
next
  case (drain_apply s s')
  from reachable_loopInv [OF drain_apply(1) w] have li: "loopInv s" .
  from drain_apply(4) have pd: "popDone s" and dj: "disjointMasks (syncingRounds s)" by simp_all
  from applyDiff_popDone [OF drain_apply(3,2) li dj pd] applyDiff_disjoint [OF drain_apply(3) dj]
  show ?case by simp
next
  case (drain_finalize s s')
  from drain_finalize(4) have "syncingRounds s' = syncingRounds s"
    by (auto simp: spawnFinalize_def split: option.splits)
  with spawnFinalize_pops [OF drain_finalize(4)] drain_finalize(5) show ?case
    by (simp add: popDone_def)
next
  case (select s ev s')
  from reachable_loopInv [OF select(1) w] have li: "loopInv s" .
  from select(4) have pd: "popDone s" and dj: "disjointMasks (syncingRounds s)" by simp_all
  from select(3) show ?case
  proof (cases rule: selectEvent_cases)
    case (pruned prunedBlk)
    then have "syncingRounds s' = syncingRounds s"
      by (auto simp: handlePruned_def Let_def split: if_splits)
    with selectEvent_pops [OF select(3)] pd dj show ?thesis by (simp add: popDone_def)
  next
    case (block blk)
    from handleBlock_popDone [OF block(2) pd] handleBlock_disjoint [OF block(2) dj]
    show ?thesis by simp
  next
    case (diff n fe task item)
    from handleDiff_popDone [OF diff(6,2,3,4) li pd] handleDiff_disjoint [OF diff(6)] dj
    show ?thesis by simp
  next
    case (finalized n summary)
    then have "syncingRounds s' = syncingRounds s"
      by (auto simp: handleFinalized_def Let_def split: if_splits)
    with selectEvent_pops [OF select(3)] pd dj show ?thesis by (simp add: popDone_def)
  qed
qed

lemma popped_per_round:
  assumes "popDone s"
  shows "length (filter (\<lambda>d. d_round d = r) (popped (trace s))) \<le> 2"
proof (rule two_keys [of diffKey _ "(r, maskIO)" "(r, maskState)"])
  from assms have "distinct (map diffKey (popped (trace s)))" by (simp add: popDone_def)
  then show "distinct (map diffKey (filter (\<lambda>d. d_round d = r) (popped (trace s))))"
    by (rule distinct_map_filter)
  from assms have "\<forall>d\<in>set (popped (trace s)). d_fetchMask d = maskIO \<or> d_fetchMask d = maskState"
    by (auto simp: popDone_def doneKey_def diffKey_def)
  then show "\<forall>x\<in>set (filter (\<lambda>d. d_round d = r) (popped (trace s))).
          diffKey x = (r, maskIO) \<or> diffKey x = (r, maskState)"
    by (auto simp: diffKey_def)
qed

lemma applied_per_round:
  assumes "popDone s" and "applied (trace s) = map d_round (filter d_fetched (popped (trace s)))"
  shows "length (filter (\<lambda>x. x = r) (applied (trace s))) \<le> 2"
proof -
  have "length (filter (\<lambda>x. x = r) (applied (trace s))) =
        length (filter (\<lambda>d. d_round d = r) (filter d_fetched (popped (trace s))))"
    by (simp add: assms(2) filter_map comp_def)
  also have "\<dots> = length (filter d_fetched (filter (\<lambda>d. d_round d = r) (popped (trace s))))"
    by (simp add: conj_commute)
  also have "\<dots> \<le> length (filter (\<lambda>d. d_round d = r) (popped (trace s)))"
    by (rule length_filter_le)
  also have "\<dots> \<le> 2" by (rule popped_per_round [OF assms(1)])
  finally show ?thesis .
qed

text \<open>
  Claim C1, amended. In every reachable state: a pass pops a diff only from the head of
  the diffs queue and only when its round is \<open>lastFullyAppliedRound + 1\<close>, and afterwards
  \<open>lastFullyAppliedRound\<close> is unchanged or one higher. So the rounds of the diffs
  popped in a run go up in steps of zero or one, never down and never skipping a round,
  and the \<open>Apply\<close> calls are made, in this order, for exactly the popped diffs that
  were fetched. When \<open>GetBlock\<close> answers with the block of the round asked for, no two
  popped diffs have the same round and subtree: at most two diffs are popped for a round,
  and a round gets at most two \<open>Apply\<close> calls.
\<close>

theorem pop_order:
  assumes "reachable env s"
  shows "successively (\<lambda>a b. b = a \<or> b = a + 1) (map d_round (popped (trace s))) \<and>
         applied (trace s) = map d_round (filter d_fetched (popped (trace s))) \<and>
         (\<forall>ev s'. mainLoop_iter env s ev = Next s' \<longrightarrow> popped (trace s') \<noteq> popped (trace s) \<longrightarrow>
            applyGuard s \<and>
            popped (trace s') = popped (trace s) @ [outOfOrderDiffs s ! 0] \<and>
            d_round (outOfOrderDiffs s ! 0) = lastFullyAppliedRound s + 1 \<and>
            (lastFullyAppliedRound s' = lastFullyAppliedRound s \<or>
             lastFullyAppliedRound s' = lastFullyAppliedRound s + 1)) \<and>
         (wfEnv env \<longrightarrow>
            distinct (map diffKey (popped (trace s))) \<and>
            (\<forall>r. length (filter (\<lambda>d. d_round d = r) (popped (trace s))) \<le> 2 \<and>
                 length (filter (\<lambda>x. x = r) (applied (trace s))) \<le> 2))"
proof (intro conjI allI impI)
  from reachable_popOrder [OF assms]
  show "successively (\<lambda>a b. b = a \<or> b = a + 1) (map d_round (popped (trace s)))"
    and ap: "applied (trace s) = map d_round (filter d_fetched (popped (trace s)))"
    by (simp_all add: popOrder_def)
  {
    fix r
    assume w: "wfEnv env"
    from reachable_popDone [OF assms w] have pd: "popDone s" by simp
    then show "distinct (map diffKey (popped (trace s)))" by (simp add: popDone_def)
    from pd show "length (filter (\<lambda>d. d_round d = r) (popped (trace s))) \<le> 2"
      by (rule popped_per_round)
    from pd ap show "length (filter (\<lambda>x. x = r) (applied (trace s))) \<le> 2"
      by (rule applied_per_round)
  }
next
  fix ev s'
  assume it: "mainLoop_iter env s ev = Next s'" and ne: "popped (trace s') \<noteq> popped (trace s)"
  show g: "applyGuard s"
  proof (rule ccontr)
    assume "\<not> applyGuard s"
    with it have "spawnFinalize s = Next s' \<or> selectEvent env s ev = Next s'"
      by (auto simp: mainLoop_iter_def split: if_splits)
    with ne show False by (auto dest: spawnFinalize_pops selectEvent_pops)
  qed
  with it have a: "applyDiff env s = Next s'" by (simp add: mainLoop_iter_def)
  from applyDiff_pops [OF a]
  show "popped (trace s') = popped (trace s) @ [outOfOrderDiffs s ! 0]" by simp
  from g show r: "d_round (outOfOrderDiffs s ! 0) = lastFullyAppliedRound s + 1"
    by (simp add: applyGuard_def)
  from applyDiff_pops [OF a] r
  show "lastFullyAppliedRound s' = lastFullyAppliedRound s \<or>
        lastFullyAppliedRound s' = lastFullyAppliedRound s + 1" by auto
qed

theorem pop_order_witness:
  "reachable (exEnv 0) exGap \<and> wfEnv (exEnv 0) \<and>
   map d_round (popped (trace exGap)) = [0, 0, 1, 1, 2, 2] \<and>
   successively (\<lambda>a b. b = a \<or> b = a + 1) [0, 0, 1, 1, 2, 2 :: round] \<and>
   applied (trace exGap) = [0, 0, 2, 2] \<and>
   map d_fetchMask (popped (trace exGap)) = [maskIO, maskState, maskIO, maskState, maskIO, maskState] \<and>
   distinct (map diffKey (popped (trace exGap))) \<and>
   length (filter (\<lambda>d. d_round d = 1) (popped (trace exGap))) = 2 \<and>
   length (filter (\<lambda>x. x = 1) (applied (trace exGap))) = 0 \<and>
   length (filter (\<lambda>x. x = 2) (applied (trace exGap))) = 2 \<and>
   reachable (exEnv 0) exQueued \<and>
   (\<exists>s'. mainLoop_iter (exEnv 0) exQueued EvDone = Next s' \<and>
         popped (trace s') \<noteq> popped (trace exQueued) \<and>
         applyGuard exQueued \<and>
         popped (trace s') = popped (trace exQueued) @ [outOfOrderDiffs exQueued ! 0] \<and>
         d_round (outOfOrderDiffs exQueued ! 0) = lastFullyAppliedRound exQueued + 1 \<and>
         lastFullyAppliedRound s' = lastFullyAppliedRound exQueued + 1)"
proof -
  have "exRun 0 None [EvBlock (exBlock 2), EvDiff 0 exFetch, EvDiff 0 exFetch,
      EvDiff 0 exFetchHas, EvDiff 0 exFetchHas, EvDiff 0 exFetch, EvDiff 0 exFetch] \<noteq> None"
    by code_simp
  moreover have "\<forall>ev\<in>set [EvBlock (exBlock 2), EvDiff 0 exFetch, EvDiff 0 exFetch,
      EvDiff 0 exFetchHas, EvDiff 0 exFetchHas, EvDiff 0 exFetch, EvDiff 0 exFetch].
      validEvent (exState 0 None []) ev" by code_simp
  ultimately have r2: "reachable (exEnv 0) exGap"
    unfolding exGap_def by (rule exState_reachable)
  note w = exEnv_wfEnv [of 0]
  have p: "map d_round (popped (trace exGap)) = [0, 0, 1, 1, 2, 2]" by code_simp
  have f: "map d_round (filter d_fetched (popped (trace exGap))) = [0, 0, 2, 2]" by code_simp
  have k: "map d_fetchMask (popped (trace exGap)) =
             [maskIO, maskState, maskIO, maskState, maskIO, maskState]" by code_simp
  have c: "length (filter (\<lambda>d. d_round d = 1) (popped (trace exGap))) = 2" by code_simp
  note rq = exQueued_reachable
  have "map_option (\<lambda>s. (length (popped (trace s)), lastFullyAppliedRound s))
          (stateOf (mainLoop_iter (exEnv 0) exQueued EvDone)) = Some (2, 0)" by code_simp
  then obtain s' where
    it: "mainLoop_iter (exEnv 0) exQueued EvDone = Next s'" and
    l: "length (popped (trace s')) = 2" and l': "lastFullyAppliedRound s' = 0"
    by (auto simp: stateOf_Some)
  have q: "length (popped (trace exQueued)) = 1" "lastFullyAppliedRound exQueued = - 1"
    by code_simp+
  from l q have ne: "popped (trace s') \<noteq> popped (trace exQueued)" by auto
  from pop_order [OF r2] w have g: "applied (trace exGap) = [0, 0, 2, 2]"
    "distinct (map diffKey (popped (trace exGap)))" by (simp_all add: f)
  from pop_order [OF rq] it ne l' q(2) g p k c
  show ?thesis by (auto simp: r2 rq w)
qed

section \<open>A block delivered again while its finalize is running\<close>

text \<open>
  Claim C6 does not hold in the code. In \<open>exRepeat\<close> block 0 has been fetched and
  applied and its finalize is running: \<open>lastFullyAppliedRound\<close> is 0, \<open>cachedLastRound\<close> is
  still the undefined round, nothing is being fetched. Delivering block 0 again submits
  the two fetches of round 0 again (\<open>exRefetched\<close>): the scheduling loop starts at
  \<open>cachedLastRound + 1\<close>, and the tracker of round 0, deleted when the round was applied,
  is created anew. The diffs they bring have round 0, which is not
  \<open>lastFullyAppliedRound + 1\<close>: they are never popped and stay at the head of the diffs
  queue, in front of the diffs of every later round. With block 1 following, the run with
  block 0 delivered once makes 4 \<open>Apply\<close> calls and starts 2 finalizes (\<open>exOnce\<close>); the
  run with block 0 delivered twice makes 2 and 1, and all four diffs stay in the queue
  (\<open>exTwice\<close>).
\<close>

theorem duplicate_block_refetch:
  "reachable (exEnv 0) exRepeat \<and>
   applied (trace exRepeat) = [0, 0] \<and> lastFullyAppliedRound exRepeat = 0 \<and>
   map Round (finalizing exRepeat) = [0] \<and> cachedLastRound exRepeat = - 1 \<and>
   fetching exRepeat = [] \<and> outOfOrderDiffs exRepeat = [] \<and>
   reachable (exEnv 0) exRefetched \<and>
   map taskKey (fetching exRefetched) = [(0, maskIO), (0, maskState)] \<and>
   reachable (exEnv 0) exOnce \<and>
   applyCalls (trace exOnce) = 4 \<and> finalizeCalls (trace exOnce) = 2 \<and>
   lastFullyAppliedRound exOnce = 1 \<and> outOfOrderDiffs exOnce = [] \<and>
   reachable (exEnv 0) exTwice \<and>
   applyCalls (trace exTwice) = 2 \<and> finalizeCalls (trace exTwice) = 1 \<and>
   lastFullyAppliedRound exTwice = 0 \<and>
   map d_round (outOfOrderDiffs exTwice) = [0, 0, 1, 1] \<and>
   fetching exTwice = []"
proof -
  let ?b = "[EvBlock (exBlock 0), EvDiff 0 exFetch, EvDiff 0 exFetch]"
  let ?r = "?b @ [EvBlock (exBlock 0)]"
  let ?o = "?b @ [EvFinalized 0, EvBlock (exBlock 1), EvDiff 0 exFetch, EvDiff 0 exFetch]"
  let ?t = "?r @ [EvFinalized 0, EvBlock (exBlock 1), EvDiff 0 exFetchHas, EvDiff 0 exFetchHas,
                   EvDiff 0 exFetch, EvDiff 0 exFetch]"
  have "exRun 0 None ?b \<noteq> None" by code_simp
  moreover have "\<forall>ev\<in>set ?b. validEvent (exState 0 None []) ev" by code_simp
  ultimately have r1: "reachable (exEnv 0) exRepeat"
    unfolding exRepeat_def by (rule exState_reachable)
  have "exRun 0 None ?r \<noteq> None" by code_simp
  moreover have "\<forall>ev\<in>set ?r. validEvent (exState 0 None []) ev" by code_simp
  ultimately have "reachable (exEnv 0) (exState 0 None ?r)" by (rule exState_reachable)
  then have r2: "reachable (exEnv 0) exRefetched" by (simp add: exRefetched_def)
  have "exRun 0 None ?o \<noteq> None" by code_simp
  moreover have "\<forall>ev\<in>set ?o. validEvent (exState 0 None []) ev" by code_simp
  ultimately have "reachable (exEnv 0) (exState 0 None ?o)" by (rule exState_reachable)
  then have r3: "reachable (exEnv 0) exOnce" by (simp add: exOnce_def)
  have "exRun 0 None ?t \<noteq> None" by code_simp
  moreover have "\<forall>ev\<in>set ?t. validEvent (exState 0 None []) ev" by code_simp
  ultimately have "reachable (exEnv 0) (exState 0 None ?t)" by (rule exState_reachable)
  then have r4: "reachable (exEnv 0) exTwice" by (simp add: exTwice_def)
  have a: "applied (trace exRepeat) = [0, 0]" "lastFullyAppliedRound exRepeat = 0"
    "map Round (finalizing exRepeat) = [0]" "cachedLastRound exRepeat = - 1"
    "fetching exRepeat = []" "outOfOrderDiffs exRepeat = []"
    by code_simp+
  have b: "map taskKey (fetching exRefetched) = [(0, maskIO), (0, maskState)]" by code_simp
  have c: "applyCalls (trace exOnce) = 4" "finalizeCalls (trace exOnce) = 2"
    "lastFullyAppliedRound exOnce = 1" "outOfOrderDiffs exOnce = []"
    by code_simp+
  have d: "applyCalls (trace exTwice) = 2" "finalizeCalls (trace exTwice) = 1"
    "lastFullyAppliedRound exTwice = 0" "map d_round (outOfOrderDiffs exTwice) = [0, 0, 1, 1]"
    "fetching exTwice = []"
    by code_simp+
  show ?thesis by (simp add: r1 r2 r3 r4 a b c d)
qed

end
